theory Spec2Isabelle
  imports Main
begin

section \<open>JavaScript values that travel on the channel\<close>

text \<open>
  The hooks of \<^verbatim>\<open>src/index.ts\<close> exchange JSON text over \<^verbatim>\<open>window.postMessage\<close>.
  A message is "any JSON-serialisable data" (README), so the values of the model are the
  JSON values. The model keeps to a fragment of what JavaScript has:
  \<^item> a number is an integer (\<open>int\<close>), written in plain decimal (as JavaScript writes the
    integers below \<^verbatim>\<open>1e21\<close>); a numeric literal with a fraction or an exponent is outside
    the fragment and \<open>JSON_parse\<close> reports it as a syntax error;
  \<^item> a string is a list of 8-bit code units (\<open>string\<close>); an escape \<^verbatim>\<open>\uXXXX\<close> above
    \<^verbatim>\<open>00FF\<close> is outside the fragment in the same way;
  \<^item> an object is the list of its own properties in creation order, each key once; the
    engine's rule that array-index keys are enumerated first is not modelled (it changes
    neither \<^verbatim>\<open>in\<close>, nor a property read, nor \<^verbatim>\<open>===\<close>);
  \<^item> the data of a \<^verbatim>\<open>message\<close> event is a string, as this library posts it.
  The value \<^verbatim>\<open>undefined\<close> is \<open>None\<close> of an option type wherever the code can meet it.
\<close>

datatype json =
    JNull
  | JBool bool
  | JNum int
  | JStr string
  | JArr "json list"
  | JObj "(string \<times> json) list"

text \<open>The exceptions the modelled code can throw.\<close>

datatype js_error = SyntaxError | TypeError | Error string

text \<open>ToBoolean: what \<^verbatim>\<open>if (message)\<close> and \<^verbatim>\<open>message && ...\<close> test.\<close>

fun truthy :: "json \<Rightarrow> bool" where
  "truthy JNull = False"
| "truthy (JBool b) = b"
| "truthy (JNum n) = (n \<noteq> 0)"
| "truthy (JStr s) = (s \<noteq> [])"
| "truthy (JArr vs) = True"
| "truthy (JObj kvs) = True"

text \<open>
  A property read \<^verbatim>\<open>v.k\<close> for the names this program reads (\<^verbatim>\<open>payload\<close>, \<^verbatim>\<open>fromId\<close>,
  the marker, \<^verbatim>\<open>__private\<close>, \<^verbatim>\<open>type\<close>, \<^verbatim>\<open>id\<close>): none is an array index, \<^verbatim>\<open>length\<close> or
  a name of a built-in prototype, so only an object's own property answers. The code
  never reads a property of \<^verbatim>\<open>null\<close>.
\<close>

fun js_get :: "json \<Rightarrow> string \<Rightarrow> json option" where
  "js_get (JObj kvs) k = map_of kvs k"
| "js_get v k = None"

text \<open>\<^verbatim>\<open>k in v\<close>, for the same names: a TypeError unless \<open>v\<close> is an object or an array.\<close>

fun js_in :: "string \<Rightarrow> json \<Rightarrow> js_error + bool" where
  "js_in k (JObj kvs) = Inr (map_of kvs k \<noteq> None)"
| "js_in k (JArr vs) = Inr False"
| "js_in k v = Inl TypeError"

subsection \<open>Numbers and strings as text\<close>

definition digit_char :: "nat \<Rightarrow> char" where
  "digit_char d = char_of (48 + d)"

fun digits :: "nat \<Rightarrow> string" where
  "digits n = (if n < 10 then [digit_char n] else digits (n div 10) @ [digit_char (n mod 10)])"

declare digits.simps [simp del]

definition show_int :: "int \<Rightarrow> string" where
  "show_int i = (if i < 0 then CHR ''-'' # digits (nat (- i)) else digits (nat i))"

definition hex_char :: "nat \<Rightarrow> char" where
  "hex_char d = (if d < 10 then char_of (48 + d) else char_of (87 + d))"

text \<open>
  QuoteJSONString, one code unit at a time: the two-character escapes, \<^verbatim>\<open>\u00xx\<close> in
  lower case for the other control characters, everything else as it is.
\<close>

definition quote_char :: "char \<Rightarrow> string" where
  "quote_char c =
     (if c = CHR 0x22 then [CHR 0x5C, CHR 0x22]
      else if c = CHR 0x5C then [CHR 0x5C, CHR 0x5C]
      else if c = CHR 0x08 then [CHR 0x5C, CHR ''b'']
      else if c = CHR 0x0C then [CHR 0x5C, CHR ''f'']
      else if c = CHR 0x0A then [CHR 0x5C, CHR ''n'']
      else if c = CHR 0x0D then [CHR 0x5C, CHR ''r'']
      else if c = CHR 0x09 then [CHR 0x5C, CHR ''t'']
      else if (of_char c :: nat) < 32 then
        [CHR 0x5C, CHR ''u'', CHR ''0'', CHR ''0'',
         hex_char ((of_char c :: nat) div 16), hex_char ((of_char c :: nat) mod 16)]
      else [c])"

definition quote :: "string \<Rightarrow> string" where
  "quote s = CHR 0x22 # concat (map quote_char s) @ [CHR 0x22]"

subsection \<open>JSON.stringify\<close>

text \<open>
  \<^verbatim>\<open>JSON.stringify(v)\<close> with no indent: no white space, members in property order.
  On a JSON value it never throws and never answers \<^verbatim>\<open>undefined\<close>.
\<close>

fun JSON_stringify :: "json \<Rightarrow> string"
and stringify_elements :: "json list \<Rightarrow> string"
and stringify_members :: "(string \<times> json) list \<Rightarrow> string"
where
  "JSON_stringify JNull = ''null''"
| "JSON_stringify (JBool b) = (if b then ''true'' else ''false'')"
| "JSON_stringify (JNum n) = show_int n"
| "JSON_stringify (JStr s) = quote s"
| "JSON_stringify (JArr vs) = CHR ''['' # stringify_elements vs @ '']''"
| "JSON_stringify (JObj kvs) = CHR ''{'' # stringify_members kvs @ ''}''"
| "stringify_elements [] = []"
| "stringify_elements [v] = JSON_stringify v"
| "stringify_elements (v # w # vs) = JSON_stringify v @ CHR '','' # stringify_elements (w # vs)"
| "stringify_members [] = []"
| "stringify_members [(k, v)] = quote k @ CHR '':'' # JSON_stringify v"
| "stringify_members ((k, v) # p # kvs) =
     quote k @ CHR '':'' # JSON_stringify v @ CHR '','' # stringify_members (p # kvs)"

subsection \<open>JSON.parse\<close>

definition is_ws :: "char \<Rightarrow> bool" where
  "is_ws c = (c = CHR 0x20 \<or> c = CHR 0x09 \<or> c = CHR 0x0A \<or> c = CHR 0x0D)"

definition skip_ws :: "string \<Rightarrow> string" where
  "skip_ws s = dropWhile is_ws s"

definition is_digit :: "char \<Rightarrow> bool" where
  "is_digit c = (48 \<le> (of_char c :: nat) \<and> (of_char c :: nat) \<le> 57)"

definition digit_val :: "char \<Rightarrow> nat" where
  "digit_val c = of_char c - 48"

definition nat_of_digits :: "string \<Rightarrow> nat" where
  "nat_of_digits ds = foldl (\<lambda>a c. 10 * a + digit_val c) 0 ds"

definition hex_val :: "char \<Rightarrow> nat option" where
  "hex_val c =
     (let n = (of_char c :: nat) in
      if 48 \<le> n \<and> n \<le> 57 then Some (n - 48)
      else if 97 \<le> n \<and> n \<le> 102 then Some (n - 87)
      else if 65 \<le> n \<and> n \<le> 70 then Some (n - 55)
      else None)"

text \<open>The single-character escapes of a JSON string.\<close>

definition unescape :: "char \<Rightarrow> char option" where
  "unescape e =
     (if e = CHR 0x22 then Some (CHR 0x22)
      else if e = CHR 0x5C then Some (CHR 0x5C)
      else if e = CHR ''/'' then Some (CHR ''/'')
      else if e = CHR ''b'' then Some (CHR 0x08)
      else if e = CHR ''f'' then Some (CHR 0x0C)
      else if e = CHR ''n'' then Some (CHR 0x0A)
      else if e = CHR ''r'' then Some (CHR 0x0D)
      else if e = CHR ''t'' then Some (CHR 0x09)
      else None)"

definition unicode_escape :: "char \<Rightarrow> char \<Rightarrow> char \<Rightarrow> char \<Rightarrow> char option" where
  "unicode_escape a b c d =
     (case (hex_val a, hex_val b, hex_val c, hex_val d) of
        (Some h3, Some h2, Some h1, Some h0) \<Rightarrow>
          (if h3 = 0 \<and> h2 = 0 then Some (char_of (16 * h1 + h0)) else None)
      | _ \<Rightarrow> None)"

text \<open>
  The characters of a string after its opening quote, up to the closing one: the string
  and the text behind it. A raw control character, a bad escape and the end of the input
  are syntax errors (\<open>None\<close>).
\<close>

fun parse_chars :: "string \<Rightarrow> (string \<times> string) option" where
  "parse_chars [] = None"
| "parse_chars (c # cs) =
     (if c = CHR 0x22 then Some ([], cs)
      else if c = CHR 0x5C then
        (case cs of
           [] \<Rightarrow> None
         | e # es \<Rightarrow>
             if e = CHR ''u'' then
               (case es of
                  h3 # h2 # h1 # h0 # r \<Rightarrow>
                    (case unicode_escape h3 h2 h1 h0 of
                       None \<Rightarrow> None
                     | Some u \<Rightarrow>
                         (case parse_chars r of
                            None \<Rightarrow> None
                          | Some (str, r') \<Rightarrow> Some (u # str, r')))
                | _ \<Rightarrow> None)
             else
               (case unescape e of
                  None \<Rightarrow> None
                | Some u \<Rightarrow>
                    (case parse_chars es of
                       None \<Rightarrow> None
                     | Some (str, r') \<Rightarrow> Some (u # str, r'))))
      else if (of_char c :: nat) < 32 then None
      else
        (case parse_chars cs of
           None \<Rightarrow> None
         | Some (str, r') \<Rightarrow> Some (c # str, r')))"

text \<open>
  A number: an optional minus sign and the integer part (\<^verbatim>\<open>0\<close>, or digits that do not
  start with \<^verbatim>\<open>0\<close>). Text that goes on with another digit after a leading \<^verbatim>\<open>0\<close> is no
  JSON text; a fraction or an exponent is outside the modelled fragment.
\<close>

definition parse_number :: "string \<Rightarrow> (json \<times> string) option" where
  "parse_number s =
     (let neg = (case s of [] \<Rightarrow> False | c # r \<Rightarrow> c = CHR ''-'');
          body = (if neg then tl s else s);
          ds = takeWhile is_digit body;
          r = dropWhile is_digit body
      in if ds = [] then None
         else if hd ds = CHR ''0'' \<and> tl ds \<noteq> [] then None
         else if r \<noteq> [] \<and> (hd r = CHR ''.'' \<or> hd r = CHR ''e'' \<or> hd r = CHR ''E'') then None
         else Some (JNum (if neg then - int (nat_of_digits ds) else int (nat_of_digits ds)), r))"

text \<open>
  A repeated key of an object literal overwrites the earlier value in its place
  (CreateDataProperty on an existing key); a new key is added last.
\<close>

fun obj_put :: "string \<Rightarrow> json \<Rightarrow> (string \<times> json) list \<Rightarrow> (string \<times> json) list" where
  "obj_put k v [] = [(k, v)]"
| "obj_put k v (p # ps) = (if fst p = k then (k, v) # ps else p # obj_put k v ps)"

definition mk_object :: "(string \<times> json) list \<Rightarrow> (string \<times> json) list" where
  "mk_object kvs = foldl (\<lambda>acc p. obj_put (fst p) (snd p) acc) [] kvs"

text \<open>
  The recursive-descent parser. Each function answers the value and the text behind it.
  The first argument bounds the nesting of calls, so that the recursion is structural; the
  bound \<open>JSON_parse\<close> gives it (more than the length of the text) is never the reason for
  a rejection (\<open>JSON_parse_fuel\<close> below).
\<close>

fun parse_value :: "nat \<Rightarrow> string \<Rightarrow> (json \<times> string) option"
and parse_elements :: "nat \<Rightarrow> string \<Rightarrow> (json list \<times> string) option"
and parse_members :: "nat \<Rightarrow> string \<Rightarrow> ((string \<times> json) list \<times> string) option"
where
  "parse_value 0 s = None"
| "parse_value (Suc n) s =
     (case skip_ws s of
        [] \<Rightarrow> None
      | c # cs \<Rightarrow>
          if c = CHR ''{'' then
            (case skip_ws cs of
               [] \<Rightarrow> None
             | d # ds \<Rightarrow>
                 if d = CHR ''}'' then Some (JObj [], ds)
                 else (case parse_members n (d # ds) of
                         None \<Rightarrow> None
                       | Some (kvs, r) \<Rightarrow> Some (JObj (mk_object kvs), r)))
          else if c = CHR ''['' then
            (case skip_ws cs of
               [] \<Rightarrow> None
             | d # ds \<Rightarrow>
                 if d = CHR '']'' then Some (JArr [], ds)
                 else (case parse_elements n (d # ds) of
                         None \<Rightarrow> None
                       | Some (vs, r) \<Rightarrow> Some (JArr vs, r)))
          else if c = CHR 0x22 then
            (case parse_chars cs of
               None \<Rightarrow> None
             | Some (str, r) \<Rightarrow> Some (JStr str, r))
          else if c = CHR ''t'' then
            (if take 3 cs = ''rue'' then Some (JBool True, drop 3 cs) else None)
          else if c = CHR ''f'' then
            (if take 4 cs = ''alse'' then Some (JBool False, drop 4 cs) else None)
          else if c = CHR ''n'' then
            (if take 3 cs = ''ull'' then Some (JNull, drop 3 cs) else None)
          else parse_number (c # cs))"
| "parse_elements 0 s = None"
| "parse_elements (Suc n) s =
     (case parse_value n s of
        None \<Rightarrow> None
      | Some (v, r) \<Rightarrow>
          (case skip_ws r of
             [] \<Rightarrow> None
           | c # cs \<Rightarrow>
               if c = CHR '','' then
                 (case parse_elements n cs of
                    None \<Rightarrow> None
                  | Some (vs, r') \<Rightarrow> Some (v # vs, r'))
               else if c = CHR '']'' then Some ([v], cs)
               else None))"
| "parse_members 0 s = None"
| "parse_members (Suc n) s =
     (case skip_ws s of
        [] \<Rightarrow> None
      | c # cs \<Rightarrow>
          if c = CHR 0x22 then
            (case parse_chars cs of
               None \<Rightarrow> None
             | Some (k, r) \<Rightarrow>
                 (case skip_ws r of
                    [] \<Rightarrow> None
                  | d # ds \<Rightarrow>
                      if d = CHR '':'' then
                        (case parse_value n ds of
                           None \<Rightarrow> None
                         | Some (v, r') \<Rightarrow>
                             (case skip_ws r' of
                                [] \<Rightarrow> None
                              | e # es \<Rightarrow>
                                  if e = CHR '','' then
                                    (case parse_members n es of
                                       None \<Rightarrow> None
                                     | Some (kvs, r'') \<Rightarrow> Some ((k, v) # kvs, r''))
                                  else if e = CHR ''}'' then Some ([(k, v)], es)
                                  else None))
                      else None))
          else None)"

text \<open>\<^verbatim>\<open>JSON.parse(text)\<close>: the value, or the SyntaxError it throws.\<close>

definition JSON_parse :: "string \<Rightarrow> js_error + json" where
  "JSON_parse s =
     (case parse_value (Suc (length s)) s of
        None \<Rightarrow> Inl SyntaxError
      | Some (v, r) \<Rightarrow> if skip_ws r = [] then Inr v else Inl SyntaxError)"


text \<open>
  The values that exist as JavaScript objects: an object holds each own key once. Every
  message a caller can hand to \<^verbatim>\<open>dispatch\<close> is of this kind, and so is every value
  \<open>JSON_parse\<close> answers (\<open>JSON_parse_wf\<close> below).
\<close>

fun wf_json :: "json \<Rightarrow> bool" where
  "wf_json (JArr vs) = (\<forall>v \<in> set vs. wf_json v)"
| "wf_json (JObj kvs) = (distinct (map fst kvs) \<and> (\<forall>p \<in> set kvs. wf_json (snd p)))"
| "wf_json v = True"

subsection \<open>ToString, as JSON.parse applies it to an argument that is not a string\<close>

text \<open>
  \<^verbatim>\<open>JSON.parse(x)\<close> first converts \<open>x\<close> to a string. An array joins its elements with
  commas (\<^verbatim>\<open>null\<close> gives the empty string); an object gives \<^verbatim>\<open>[object Object]\<close>, unless an
  own property \<^verbatim>\<open>toString\<close> (never callable in parsed JSON) hides the inherited method and
  the conversion throws.
\<close>

fun js_ToString :: "json \<Rightarrow> js_error + string"
and js_join :: "json list \<Rightarrow> js_error + string"
where
  "js_ToString JNull = Inr ''null''"
| "js_ToString (JBool b) = Inr (if b then ''true'' else ''false'')"
| "js_ToString (JNum n) = Inr (show_int n)"
| "js_ToString (JStr s) = Inr s"
| "js_ToString (JArr vs) = js_join vs"
| "js_ToString (JObj kvs) =
     (if map_of kvs ''toString'' \<noteq> None then Inl TypeError else Inr ''[object Object]'')"
| "js_join [] = Inr []"
| "js_join (v # vs) =
     (case (if v = JNull then Inr [] else js_ToString v) of
        Inl e \<Rightarrow> Inl e
      | Inr a \<Rightarrow>
          if vs = [] then Inr a
          else (case js_join vs of Inl e \<Rightarrow> Inl e | Inr b \<Rightarrow> Inr (a @ CHR '','' # b)))"

definition JSON_parse_any :: "json option \<Rightarrow> js_error + json" where
  "JSON_parse_any x =
     (case x of
        None \<Rightarrow> JSON_parse ''undefined''
      | Some v \<Rightarrow> (case js_ToString v of Inl e \<Rightarrow> Inl e | Inr s \<Rightarrow> JSON_parse s))"

section \<open>The envelope codec (encodeMessage, decodeMessage)\<close>

definition packetId :: string where
  "packetId = ''__fromUseIframeHook''"

text \<open>
  \<^verbatim>\<open>JSON.stringify({ fromId, payload: JSON.stringify(message), [packetId]: true })\<close>:
  a property whose value is \<^verbatim>\<open>undefined\<close> is left out of the text.
\<close>

definition encodeMessage :: "json \<Rightarrow> string option \<Rightarrow> string" where
  "encodeMessage message fromId =
     JSON_stringify (JObj
       ((case fromId of None \<Rightarrow> [] | Some i \<Rightarrow> [(''fromId'', JStr i)]) @
        [(''payload'', JStr (JSON_stringify message)), (packetId, JBool True)]))"

text \<open>
  The body of the \<^verbatim>\<open>try\<close> block: \<open>Inl\<close> is an exception thrown inside it, \<open>Inr None\<close> is
  falling through to \<^verbatim>\<open>return undefined\<close>.
\<close>

definition decodeMessage_try :: "string \<Rightarrow> js_error + (json \<times> json option) option" where
  "decodeMessage_try raw =
     (case JSON_parse raw of
        Inl e \<Rightarrow> Inl e
      | Inr decoded \<Rightarrow>
          (case js_in packetId decoded of
             Inl e \<Rightarrow> Inl e
           | Inr present \<Rightarrow>
               if present \<and> js_get decoded packetId = Some (JBool True) then
                 (case JSON_parse_any (js_get decoded ''payload'') of
                    Inl e \<Rightarrow> Inl e
                  | Inr message \<Rightarrow> Inr (Some (message, js_get decoded ''fromId'')))
               else Inr None))"

text \<open>\<^verbatim>\<open>catch (e) { return undefined; }\<close> around it: \<open>None\<close> is \<^verbatim>\<open>undefined\<close>.\<close>

definition decodeMessage :: "string \<Rightarrow> (json \<times> json option) option" where
  "decodeMessage raw = (case decodeMessage_try raw of Inl e \<Rightarrow> None | Inr r \<Rightarrow> r)"

text \<open>
  The strings \<^verbatim>\<open>decodeMessage\<close> can accept: a JSON text for an object whose own property
  under the marker key is exactly \<^verbatim>\<open>true\<close>.
\<close>

definition marked_wrapper :: "string \<Rightarrow> bool" where
  "marked_wrapper raw =
     (case JSON_parse raw of
        Inr (JObj kvs) \<Rightarrow> map_of kvs packetId = Some (JBool True)
      | _ \<Rightarrow> False)"

text \<open>The falsy JSON values.\<close>

definition falsy :: "json \<Rightarrow> bool" where
  "falsy m = (m = JBool False \<or> m = JNum 0 \<or> m = JStr [] \<or> m = JNull)"

text \<open>
  \<^verbatim>\<open>message.hasOwnProperty("__private") && "__private" in message && message.__private === true\<close>.
  A primitive is boxed and an array has no such property, so \<^verbatim>\<open>&&\<close> stops at the first
  operand; an object whose own property \<^verbatim>\<open>hasOwnProperty\<close> hides the method makes the call
  throw; \<^verbatim>\<open>null\<close> has no properties at all.
\<close>

fun isPrivateMessage :: "json \<Rightarrow> js_error + bool" where
  "isPrivateMessage JNull = Inl TypeError"
| "isPrivateMessage (JObj kvs) =
     (if map_of kvs ''hasOwnProperty'' \<noteq> None then Inl TypeError
      else Inr (map_of kvs ''__private'' \<noteq> None \<and> map_of kvs ''__private'' \<noteq> None \<and>
                map_of kvs ''__private'' = Some (JBool True)))"
| "isPrivateMessage v = Inr False"

section \<open>One Link: the state of a useIframe call\<close>

text \<open>
  \<open>ref\<close> is \<^verbatim>\<open>options?.ref\<close>: \<open>None\<close> when the caller gave none, \<open>Some None\<close> while
  \<^verbatim>\<open>ref.current\<close> is \<^verbatim>\<open>null\<close>. \<open>in_frame\<close> is \<^verbatim>\<open>window !== window.top\<close>. The other fields
  are the hook's \<^verbatim>\<open>useState\<close> cells; \<open>updates\<close> holds the updater functions given to
  \<^verbatim>\<open>setQueue\<close> that the next render has still to apply, oldest first.
\<close>

record iframe_element =
  el_id :: string
  has_contentWindow :: bool

datatype queue_update = Append json | Slice1

record link =
  ref :: "iframe_element option option"
  in_frame :: bool
  iframeId :: "string option"
  queue :: "json list"
  updates :: "queue_update list"
  childId :: "string option"

text \<open>What a step does to the outside: a post on the channel, or a call of the caller's handler.\<close>

datatype action = PostToFrame string | PostToParent string | Handle json

definition isParent :: "link \<Rightarrow> bool" where
  "isParent st = (ref st \<noteq> None)"

definition isChild :: "link \<Rightarrow> bool" where
  "isChild st = (\<not> isParent st \<and> in_frame st)"

definition isChildMounted :: "link \<Rightarrow> bool" where
  "isChildMounted st = (childId st \<noteq> None)"

definition new_link :: "iframe_element option option \<Rightarrow> bool \<Rightarrow> link" where
  "new_link r f = \<lparr>ref = r, in_frame = f, iframeId = None, queue = [], updates = [], childId = None\<rparr>"

text \<open>\<^verbatim>\<open>useEffect(() => { setIframeId(ref?.current?.id); }, [ref])\<close>\<close>

definition iframeId_effect :: "link \<Rightarrow> link" where
  "iframeId_effect st =
     st\<lparr>iframeId := (case ref st of Some (Some el) \<Rightarrow> Some (el_id el) | _ \<Rightarrow> None)\<rparr>"

text \<open>\<^verbatim>\<open>q => [...q, message]\<close> and \<^verbatim>\<open>q => q.slice(1)\<close>.\<close>

fun apply_update :: "json list \<Rightarrow> queue_update \<Rightarrow> json list" where
  "apply_update q (Append m) = q @ [m]"
| "apply_update q Slice1 = tl q"

text \<open>The queue the next render will see.\<close>

definition pending_queue :: "link \<Rightarrow> json list" where
  "pending_queue st = foldl apply_update (queue st) (updates st)"

text \<open>\<^verbatim>\<open>dispatch\<close> and \<^verbatim>\<open>dispatchPrivate\<close> have the same body: \<^verbatim>\<open>setQueue(q => [...q, message])\<close>.\<close>

definition dispatch :: "link \<Rightarrow> json \<Rightarrow> link" where
  "dispatch st message = st\<lparr>updates := updates st @ [Append message]\<rparr>"

definition dispatchPrivate :: "link \<Rightarrow> json \<Rightarrow> link" where
  "dispatchPrivate st message = st\<lparr>updates := updates st @ [Append message]\<rparr>"

text \<open>
  \<^verbatim>\<open>switch (message.type) { case "mounted": if (message.id === iframeId) return setChildId(message.id); }\<close>
  When the test holds, \<^verbatim>\<open>message.id\<close> is \<^verbatim>\<open>iframeId\<close> itself (a string, or \<^verbatim>\<open>undefined\<close> on both sides).
\<close>

definition handlePrivateMessage :: "link \<Rightarrow> json \<Rightarrow> link" where
  "handlePrivateMessage st message =
     (if js_get message ''type'' = Some (JStr ''mounted'') then
        (if js_get message ''id'' = map_option JStr (iframeId st) then st\<lparr>childId := iframeId st\<rparr>
         else st)
      else st)"

text \<open>
  \<^verbatim>\<open>postMessage\<close> (lines 106-115). \<^verbatim>\<open>isParent && ref?.current\<close> holds when the frame element
  is there: then the message goes to its window, if it has one. Otherwise a Child posts to
  \<^verbatim>\<open>window.parent\<close> with its own id. \<open>post_action\<close> is the post made when one is made.
\<close>

definition post_action :: "link \<Rightarrow> json \<Rightarrow> action" where
  "post_action st m =
     (if isParent st then PostToFrame (encodeMessage m None)
      else PostToParent (encodeMessage m (childId st)))"

definition postMessage :: "link \<Rightarrow> json \<Rightarrow> action list" where
  "postMessage st message =
     (case ref st of
        Some (Some el) \<Rightarrow>
          if has_contentWindow el then [PostToFrame (encodeMessage message None)] else []
      | _ \<Rightarrow>
          if isChild st then [PostToParent (encodeMessage message (childId st))] else [])"

text \<open>
  The drain effect (lines 117-130), run on the rendered queue. \<^verbatim>\<open>queue[0]\<close> of an empty
  queue is \<^verbatim>\<open>undefined\<close>, which is falsy.
\<close>

definition drain_effect :: "link \<Rightarrow> link \<times> action list" where
  "drain_effect st =
     (case queue st of
        [] \<Rightarrow> (st, [])
      | message # rest \<Rightarrow>
          if isParent st then
            (if truthy message \<and> isChildMounted st
             then (st\<lparr>updates := updates st @ [Slice1]\<rparr>, postMessage st message)
             else (st, []))
          else if isChild st then
            (if truthy message
             then (st\<lparr>updates := updates st @ [Slice1]\<rparr>, postMessage st message)
             else (st, []))
          else (st, []))"

text \<open>
  The listener for \<^verbatim>\<open>message\<close> events (lines 132-151). \<open>Inl\<close> is an exception that leaves
  the listener; the state updates and handler calls come after the only throwing call.
\<close>

definition eventListener :: "link \<Rightarrow> string \<Rightarrow> js_error + (link \<times> action list)" where
  "eventListener st raw =
     (case decodeMessage raw of
        None \<Rightarrow> Inr (st, [])
      | Some (message, fromId) \<Rightarrow>
          if truthy message then
            (case isPrivateMessage message of
               Inl e \<Rightarrow> Inl e
             | Inr is_private \<Rightarrow>
                 if is_private then Inr (handlePrivateMessage st message, [])
                 else if isParent st then
                   (if map_option JStr (iframeId st) = fromId then Inr (st, [Handle message])
                    else Inr (st, []))
                 else if isChild st then Inr (st, [Handle message])
                 else Inr (st, []))
          else Inr (st, []))"

text \<open>The Link after a \<^verbatim>\<open>message\<close> event; an exception in the listener changes nothing.\<close>

definition after_receive :: "link \<Rightarrow> string \<Rightarrow> link" where
  "after_receive st raw = (case eventListener st raw of Inl e \<Rightarrow> st | Inr (st', a) \<Rightarrow> st')"

text \<open>
  The Child's mount effect (lines 155-166). \<open>found\<close> is the id of the \<^verbatim>\<open>iframe\<close> element of
  the parent document whose \<^verbatim>\<open>contentWindow\<close> is this window, \<open>None\<close> when \<^verbatim>\<open>find\<close> answers
  \<^verbatim>\<open>undefined\<close> (a parent document of another origin, which the effect cannot read, is
  not modelled).
\<close>

definition mounted_message :: "string \<Rightarrow> json" where
  "mounted_message i = JObj [(''type'', JStr ''mounted''), (''id'', JStr i), (''__private'', JBool True)]"

definition child_mount_effect :: "string option \<Rightarrow> link \<Rightarrow> link \<times> action list" where
  "child_mount_effect found st =
     (if isChild st then
        (case found of
           None \<Rightarrow> (st, [])
         | Some i \<Rightarrow> ((dispatchPrivate st (mounted_message i))\<lparr>childId := Some i\<rparr>, []))
      else (st, []))"

text \<open>
  A render applies all pending updaters in order (React's batching of state updates). The
  hook's body then throws when \<^verbatim>\<open>isParent && ref?.current && !iframeId\<close> (lines 168-170: the
  frame element is there and the id is \<^verbatim>\<open>undefined\<close> or empty), and no effect of that render
  runs; otherwise the drain effect runs on the rendered queue.
  (When nothing the effect depends on has changed React skips it; it would do nothing
  then, having done nothing on the same values before.)
\<close>

definition render :: "link \<Rightarrow> link" where
  "render st = st\<lparr>queue := pending_queue st, updates := []\<rparr>"

definition config_error :: "link \<Rightarrow> bool" where
  "config_error st =
     (case ref st of
        Some (Some el) \<Rightarrow> iframeId st = None \<or> iframeId st = Some []
      | _ \<Rightarrow> False)"

definition drain_cycle :: "link \<Rightarrow> js_error + (link \<times> action list)" where
  "drain_cycle st =
     (if config_error (render st) then Inl (Error ''iframes must have an ID set'')
      else Inr (drain_effect (render st)))"

subsection \<open>Runs of one Link\<close>

text \<open>
  What can happen to a mounted Link: the caller submits a message (\<^verbatim>\<open>dispatch\<close>), React
  renders and runs the drain effect, a \<^verbatim>\<open>message\<close> event arrives. An exception in the
  event listener is reported by the browser and changes nothing; an exception in a render
  ends the Link.
\<close>

datatype event = Submit json | Cycle | Receive string

definition step :: "link \<Rightarrow> event \<Rightarrow> js_error + (link \<times> action list)" where
  "step st e =
     (case e of
        Submit m \<Rightarrow> Inr (dispatch st m, [])
      | Cycle \<Rightarrow> drain_cycle st
      | Receive raw \<Rightarrow> (case eventListener st raw of Inl err \<Rightarrow> Inr (st, []) | Inr r \<Rightarrow> Inr r))"

text \<open>The actions of a run, and the state it ends in (or the exception that ended it).\<close>

fun run :: "link \<Rightarrow> event list \<Rightarrow> action list \<times> (js_error + link)" where
  "run st [] = ([], Inr st)"
| "run st (e # es) =
     (case step st e of
        Inl err \<Rightarrow> ([], Inl err)
      | Inr (st', a) \<Rightarrow> (case run st' es of (b, r) \<Rightarrow> (a @ b, r)))"

text \<open>The wire strings among the actions, in order; the messages a run submits, in order.\<close>

fun posted :: "action list \<Rightarrow> string list" where
  "posted [] = []"
| "posted (PostToFrame w # acts) = w # posted acts"
| "posted (PostToParent w # acts) = w # posted acts"
| "posted (Handle m # acts) = posted acts"

fun submitted :: "event list \<Rightarrow> json list" where
  "submitted [] = []"
| "submitted (Submit m # es) = m # submitted es"
| "submitted (e # es) = submitted es"

fun is_receive :: "event \<Rightarrow> bool" where
  "is_receive (Receive raw) = True"
| "is_receive e = False"

text \<open>The posts among the actions (a call of the handler is none).\<close>

fun is_post :: "action \<Rightarrow> bool" where
  "is_post (Handle m) = False"
| "is_post a = True"

text \<open>
  A Link whose drain effect sends: a Child, or a Parent that renders, has its child
  mounted, and whose frame element is there with a window.
\<close>

definition ready_to_send :: "link \<Rightarrow> bool" where
  "ready_to_send st =
     (isChild st \<or>
      (isParent st \<and> isChildMounted st \<and> \<not> config_error st \<and>
       (case ref st of Some (Some el) \<Rightarrow> has_contentWindow el | _ \<Rightarrow> False)))"

text \<open>
  \<open>post_of st a m\<close>: the action \<open>a\<close> is the post of the message \<open>m\<close> by the Link \<open>st\<close>, in its
  envelope. A Parent's envelope carries no sender id. A Child's envelope carries the
  \<open>childId\<close> it has when it posts: the one it has in \<open>st\<close>, or \<open>iframeId\<close> (\<^verbatim>\<open>undefined\<close> on a
  Child) once a private \<^verbatim>\<open>mounted\<close> message without an id has made \<open>handlePrivateMessage\<close>
  overwrite it.
\<close>

definition post_of :: "link \<Rightarrow> action \<Rightarrow> json \<Rightarrow> bool" where
  "post_of st a m = (a = post_action st m \<or> a = post_action (st\<lparr>childId := iframeId st\<rparr>) m)"

text \<open>
  The queue discipline in the spec's words, to compare the code with: a strict FIFO, one
  head entry sent per drain cycle. It answers the messages sent and the queue left.
\<close>

fun fifo_spec :: "json list \<Rightarrow> event list \<Rightarrow> json list \<times> json list" where
  "fifo_spec q [] = ([], q)"
| "fifo_spec q (Submit m # es) = fifo_spec (q @ [m]) es"
| "fifo_spec [] (Cycle # es) = fifo_spec [] es"
| "fifo_spec (m # q) (Cycle # es) = (case fifo_spec q es of (sent, left) \<Rightarrow> (m # sent, left))"
| "fifo_spec q (Receive raw # es) = fifo_spec q es"

text \<open>
  A packet that establishes this Link: a truthy private message of type \<^verbatim>\<open>mounted\<close> whose
  id is the string this Link expects.
\<close>

definition is_mounted_for :: "link \<Rightarrow> string \<Rightarrow> bool" where
  "is_mounted_for st raw =
     (case decodeMessage raw of
        None \<Rightarrow> False
      | Some (m, f) \<Rightarrow>
          truthy m \<and> isPrivateMessage m = Inr True \<and> js_get m ''type'' = Some (JStr ''mounted'') \<and>
          (case iframeId st of None \<Rightarrow> False | Some i \<Rightarrow> js_get m ''id'' = Some (JStr i)))"

section \<open>Shared state (useIframeSharedState)\<close>

text \<open>
  \<open>local_age\<close> and \<open>remote_age\<close> are \<^verbatim>\<open>stateAge.current.local\<close> and \<^verbatim>\<open>.remote\<close>, in
  milliseconds as \<^verbatim>\<open>new Date().getTime()\<close> gives them; the clock is an input of the
  model. A message is of the hook's type \<^verbatim>\<open>SharedStateMessageType\<close>, as the handler's
  signature says: its \<^verbatim>\<open>type\<close> is \<^verbatim>\<open>"__private_set-state"\<close>, the one case of the handler's
  \<^verbatim>\<open>switch\<close>, and its \<^verbatim>\<open>time\<close> is a number.
\<close>

record shared_message =
  msg_state :: json
  msg_time :: int

record shared_state =
  lnk :: link
  local_age :: int
  remote_age :: int
  internalState :: json
  remoteState :: json

definition shared_message_json :: "shared_message \<Rightarrow> json" where
  "shared_message_json m =
     JObj [(''type'', JStr ''__private_set-state''), (''state'', msg_state m), (''time'', JNum (msg_time m))]"

text \<open>The first render: \<^verbatim>\<open>useRef({ local: new Date().getTime(), remote: 0 })\<close> and the two \<^verbatim>\<open>useState(initialState)\<close>.\<close>

definition new_shared_state :: "int \<Rightarrow> json \<Rightarrow> link \<Rightarrow> shared_state" where
  "new_shared_state now initialState l =
     \<lparr>lnk = l, local_age = now, remote_age = 0, internalState = initialState, remoteState = initialState\<rparr>"

text \<open>The handler given to useIframe (lines 215-224).\<close>

definition shared_handler :: "shared_state \<Rightarrow> shared_message \<Rightarrow> shared_state" where
  "shared_handler st message = st\<lparr>remote_age := msg_time message, remoteState := msg_state message\<rparr>"

text \<open>
  The effect on \<^verbatim>\<open>[internalState, dispatch]\<close> (lines 228-232), with the clock reading \<open>now\<close>:
  it runs after the first render and after every render in which \<open>internalState\<close> changed.
\<close>

definition local_effect :: "int \<Rightarrow> shared_state \<Rightarrow> shared_state" where
  "local_effect now st =
     st\<lparr>local_age := now,
        lnk := dispatch (lnk st) (shared_message_json \<lparr>msg_state = internalState st, msg_time = now\<rparr>)\<rparr>"

text \<open>
  A local mutation: the state cell takes a value \<open>v\<close> that is not the one it holds, and the
  effect of the render this causes runs at the clock reading \<open>now\<close>.
\<close>

definition local_mutation :: "json \<Rightarrow> int \<Rightarrow> shared_state \<Rightarrow> shared_state" where
  "local_mutation v now st = local_effect now (st\<lparr>internalState := v\<rparr>)"

text \<open>
  \<^verbatim>\<open>Object.is(a, b)\<close>, by which React compares a new state with the old one and the
  dependencies of an effect: primitives by value, an array or object by identity. Identity
  is not a matter of the value, so \<open>same_ref\<close> says whether the caller handed back the very
  object the cell holds.
\<close>

definition Object_is :: "bool \<Rightarrow> json \<Rightarrow> json \<Rightarrow> bool" where
  "Object_is same_ref a b =
     (case a of
        JArr vs \<Rightarrow> same_ref \<and> a = b
      | JObj kvs \<Rightarrow> same_ref \<and> a = b
      | _ \<Rightarrow> a = b)"

text \<open>
  \<^verbatim>\<open>setInternalState(v)\<close>, the setter the hook returns. When \<open>v\<close> is the value the cell holds,
  \<open>internalState\<close> is unchanged in the next render (if React renders at all), the effect on
  \<^verbatim>\<open>[internalState, dispatch]\<close> does not run, and nothing has happened; otherwise the call
  is a local mutation.
\<close>

definition setInternalState :: "bool \<Rightarrow> json \<Rightarrow> int \<Rightarrow> shared_state \<Rightarrow> shared_state" where
  "setInternalState same_ref v now st =
     (if Object_is same_ref v (internalState st) then st else local_mutation v now st)"

text \<open>
  The value the hook returns when it renders (lines 234-237). Whether React renders again
  after an update is not part of the model.
\<close>

definition observed :: "shared_state \<Rightarrow> json" where
  "observed st = (if local_age st > remote_age st then internalState st else remoteState st)"

section \<open>Example Links\<close>

text \<open>
  The concrete Links the witnesses and counterexamples run on: a Parent bound to the frame
  with id \<^verbatim>\<open>A\<close> after its first effects; the packet the Child inside frame \<open>i\<close> posts when
  it announces itself; that Parent once the packet of frame \<^verbatim>\<open>A\<close> has arrived; and a Child
  before its mount effect.
\<close>

definition parent_A :: link where
  "parent_A = iframeId_effect (new_link (Some (Some \<lparr>el_id = ''A'', has_contentWindow = True\<rparr>)) False)"

definition mounted_packet :: "string \<Rightarrow> string" where
  "mounted_packet i = encodeMessage (mounted_message i) (Some i)"

definition established_A :: link where
  "established_A = after_receive parent_A (mounted_packet ''A'')"

definition fresh_child :: link where
  "fresh_child = new_link None True"

section \<open>Notions used in the proofs\<close>

text \<open>
  What may follow a value inside a text that \<open>JSON_stringify\<close> wrote; the characters a value
  can start with; and what the round-trip induction carries for one value.
\<close>

definition ok_rest :: "string \<Rightarrow> bool" where
  "ok_rest r = (r = [] \<or> hd r = CHR '','' \<or> hd r = CHR '']'' \<or> hd r = CHR ''}'')"

definition start_char :: "char \<Rightarrow> bool" where
  "start_char c = (c = CHR ''n'' \<or> c = CHR ''t'' \<or> c = CHR ''f'' \<or> c = CHR 0x22 \<or> c = CHR ''[''
      \<or> c = CHR ''{'' \<or> c = CHR ''-'' \<or> is_digit c)"

text \<open>
  What the proof that the parser's bound is immaterial carries: a result found with the
  bound \<open>m\<close> leaves a shorter text behind, and is found again with any bound that is at
  least the number of characters it read.
\<close>

definition fuel_free_value :: "nat \<Rightarrow> bool" where
  "fuel_free_value m = (\<forall>s v r. parse_value m s = Some (v, r) \<longrightarrow>
      length r < length s \<and> (\<forall>n \<ge> length s - length r. parse_value n s = Some (v, r)))"

definition fuel_free_elements :: "nat \<Rightarrow> bool" where
  "fuel_free_elements m = (\<forall>s vs r. parse_elements m s = Some (vs, r) \<longrightarrow>
      length r < length s \<and> (\<forall>n \<ge> length s - length r. parse_elements n s = Some (vs, r)))"

definition fuel_free_members :: "nat \<Rightarrow> bool" where
  "fuel_free_members m = (\<forall>s kvs r. parse_members m s = Some (kvs, r) \<longrightarrow>
      length r < length s \<and> (\<forall>n \<ge> length s - length r. parse_members n s = Some (kvs, r)))"

text \<open>Two states of one Link with the same role, frame and identifiers.\<close>

definition same_config :: "link \<Rightarrow> link \<Rightarrow> bool" where
  "same_config st st' =
     (ref st' = ref st \<and> in_frame st' = in_frame st \<and> iframeId st' = iframeId st \<and> childId st' = childId st)"

text \<open>
  Two states of one Link with the same role and frame, the second with the \<open>childId\<close> of the
  first or with the one \<open>handlePrivateMessage\<close> writes.
\<close>

definition same_frame :: "link \<Rightarrow> link \<Rightarrow> bool" where
  "same_frame st st' =
     (ref st' = ref st \<and> in_frame st' = in_frame st \<and> iframeId st' = iframeId st \<and>
      (childId st' = childId st \<or> childId st' = iframeId st))"

definition parses_back :: "json \<Rightarrow> bool" where
  "parses_back v = (\<forall>n r. length (JSON_stringify v) \<le> n \<longrightarrow> ok_rest r \<longrightarrow>
      parse_value n (JSON_stringify v @ r) = Some (v, r))"

section \<open>JSON.parse reads back what JSON.stringify wrote\<close>

lemma is_digit_digit_char: "d < 10 \<Longrightarrow> is_digit (digit_char d)"
  by (simp add: is_digit_def digit_char_def)

lemma digit_val_digit_char: "d < 10 \<Longrightarrow> digit_val (digit_char d) = d"
  by (simp add: digit_val_def digit_char_def)

lemma digits_all_digit: "\<forall>c \<in> set (digits n). is_digit c"
proof (induction n rule: digits.induct)
  case (1 n)
  show ?case
  proof (cases "n < 10")
    case True
    then show ?thesis by (subst digits.simps) (simp add: is_digit_digit_char)
  next
    case False
    with 1 show ?thesis by (subst digits.simps) (simp add: is_digit_digit_char)
  qed
qed

lemma digits_nonempty: "digits n \<noteq> []"
  by (subst digits.simps) simp

lemma nat_of_digits_snoc: "nat_of_digits (ds @ [c]) = 10 * nat_of_digits ds + digit_val c"
  by (simp add: nat_of_digits_def)

lemma nat_of_digits_digits: "nat_of_digits (digits n) = n"
proof (induction n rule: digits.induct)
  case (1 n)
  show ?case
  proof (cases "n < 10")
    case True
    then show ?thesis by (subst digits.simps) (simp add: nat_of_digits_def digit_val_digit_char)
  next
    case False
    with 1 have "nat_of_digits (digits (n div 10)) = n div 10" by simp
    with False show ?thesis
      by (subst digits.simps) (simp add: nat_of_digits_snoc digit_val_digit_char)
  qed
qed

lemma hd_digits_zero: "hd (digits n) = CHR ''0'' \<Longrightarrow> n = 0"
proof (induction n rule: digits.induct)
  case (1 n)
  show ?case
  proof (cases "n < 10")
    case True
    with 1(2) have "digit_char n = CHR ''0''" by (subst (asm) digits.simps) simp
    then have "(of_char (digit_char n) :: nat) = of_char (CHR ''0'')" by simp
    with True show ?thesis by (simp add: digit_char_def)
  next
    case False
    with 1(2) have "hd (digits (n div 10)) = CHR ''0''"
      by (subst (asm) digits.simps) (simp add: digits_nonempty)
    with 1(1) False have "n div 10 = 0" by simp
    with False show ?thesis by simp
  qed
qed


lemma ok_rest_not_digit: "ok_rest r \<Longrightarrow> r \<noteq> [] \<Longrightarrow> \<not> is_digit (hd r)"
  by (auto simp: ok_rest_def is_digit_def)

lemma takeWhile_digits: "ok_rest r \<Longrightarrow> takeWhile is_digit (digits n @ r) = digits n"
  using digits_all_digit [of n] ok_rest_not_digit [of r]
  by (cases r) (simp_all add: takeWhile_append2 takeWhile_append1)

lemma dropWhile_digits: "ok_rest r \<Longrightarrow> dropWhile is_digit (digits n @ r) = r"
  using digits_all_digit [of n] ok_rest_not_digit [of r]
  by (cases r) (simp_all add: dropWhile_append2)

lemma hd_digits_not_minus: "hd (digits n) \<noteq> CHR ''-''"
  using digits_all_digit [of n] digits_nonempty [of n]
  by (cases "digits n") (auto simp: is_digit_def)

lemma parse_number_digits:
  assumes "ok_rest r"
  shows "parse_number (digits n @ r) = Some (JNum (int n), r)"
proof -
  have neg: "(case digits n @ r of [] \<Rightarrow> False | c # x \<Rightarrow> c = CHR ''-'') = False"
    using hd_digits_not_minus [of n] digits_nonempty [of n] by (cases "digits n") auto
  have z: "hd (digits n) = CHR ''0'' \<longrightarrow> tl (digits n) = []"
  proof
    assume "hd (digits n) = CHR ''0''"
    then have "n = 0" by (rule hd_digits_zero)
    then show "tl (digits n) = []" by (subst digits.simps) simp
  qed
  have r: "\<not> (r \<noteq> [] \<and> (hd r = CHR ''.'' \<or> hd r = CHR ''e'' \<or> hd r = CHR ''E''))"
    using assms by (auto simp: ok_rest_def)
  show ?thesis
    unfolding parse_number_def neg
    using z r by (simp add: Let_def takeWhile_digits [OF assms] dropWhile_digits [OF assms]
        digits_nonempty nat_of_digits_digits)
qed

lemma parse_number_show_int:
  assumes "ok_rest r"
  shows "parse_number (show_int i @ r) = Some (JNum i, r)"
proof (cases "i < 0")
  case False
  then show ?thesis using parse_number_digits [OF assms, of "nat i"] by (simp add: show_int_def)
next
  case True
  have z: "hd (digits (nat (- i))) = CHR ''0'' \<longrightarrow> tl (digits (nat (- i))) = []"
  proof
    assume "hd (digits (nat (- i))) = CHR ''0''"
    then have "nat (- i) = 0" by (rule hd_digits_zero)
    with True show "tl (digits (nat (- i))) = []" by simp
  qed
  have r: "\<not> (r \<noteq> [] \<and> (hd r = CHR ''.'' \<or> hd r = CHR ''e'' \<or> hd r = CHR ''E''))"
    using assms by (auto simp: ok_rest_def)
  from True show ?thesis
    unfolding parse_number_def show_int_def
    using z r by (simp add: Let_def takeWhile_digits [OF assms] dropWhile_digits [OF assms]
        digits_nonempty nat_of_digits_digits)
qed

lemma hex_val_hex_char: "d < 16 \<Longrightarrow> hex_val (hex_char d) = Some d"
  by (auto simp: hex_val_def hex_char_def Let_def)

lemma unicode_escape_control:
  assumes "(of_char c :: nat) < 32"
  shows "unicode_escape (CHR ''0'') (CHR ''0'') (hex_char ((of_char c :: nat) div 16))
           (hex_char ((of_char c :: nat) mod 16)) = Some c"
proof -
  have a: "hex_val (hex_char ((of_char c :: nat) div 16)) = Some ((of_char c :: nat) div 16)"
    using assms by (intro hex_val_hex_char) simp
  have b: "hex_val (hex_char ((of_char c :: nat) mod 16)) = Some ((of_char c :: nat) mod 16)"
    by (intro hex_val_hex_char) simp
  have z: "hex_val (CHR ''0'') = Some 0" by (simp add: hex_val_def)
  show ?thesis by (simp add: unicode_escape_def a b z)
qed

lemma parse_chars_quote_char:
  "parse_chars (quote_char c @ s) =
     (case parse_chars s of None \<Rightarrow> None | Some (str, r) \<Rightarrow> Some (c # str, r))"
proof -
  consider (dq) "c = CHR 0x22" | (bs) "c = CHR 0x5C" | (b) "c = CHR 0x08" | (f) "c = CHR 0x0C"
    | (n) "c = CHR 0x0A" | (r) "c = CHR 0x0D" | (t) "c = CHR 0x09"
    | (u) "c \<notin> {CHR 0x22, CHR 0x5C, CHR 0x08, CHR 0x0C, CHR 0x0A, CHR 0x0D, CHR 0x09}" "(of_char c :: nat) < 32"
    | (plain) "c \<notin> {CHR 0x22, CHR 0x5C, CHR 0x08, CHR 0x0C, CHR 0x0A, CHR 0x0D, CHR 0x09}" "\<not> (of_char c :: nat) < 32"
    by auto
  then show ?thesis
  proof cases
    case u
    then show ?thesis
      by (simp add: quote_char_def unicode_escape_control)
  next
    case plain
    then show ?thesis by (simp add: quote_char_def)
  qed (auto simp add: quote_char_def unescape_def)
qed

lemma parse_chars_quoted:
  "parse_chars (concat (map quote_char s) @ CHR 0x22 # r) = Some (s, r)"
  by (induction s) (simp_all add: parse_chars_quote_char)

lemma parse_chars_quote: "parse_chars (tl (quote s) @ r) = Some (s, r)"
  using parse_chars_quoted [of s r] by (simp add: quote_def)


lemma show_int_start: "\<exists>c cs. show_int i = c # cs \<and> (c = CHR ''-'' \<or> is_digit c)"
proof (cases "i < 0")
  case True
  then show ?thesis by (simp add: show_int_def)
next
  case False
  obtain c cs where "digits (nat i) = c # cs"
    using digits_nonempty [of "nat i"] by (cases "digits (nat i)") auto
  moreover from this have "is_digit c" using digits_all_digit [of "nat i"] by simp
  ultimately show ?thesis using False by (simp add: show_int_def)
qed

lemma stringify_start: "\<exists>c cs. JSON_stringify v = c # cs \<and> start_char c"
proof (cases v)
  case (JNum i)
  then show ?thesis using show_int_start [of i] by (auto simp: start_char_def)
qed (auto simp: start_char_def quote_def)

lemma start_char_not_ws: "start_char c \<Longrightarrow> \<not> is_ws c"
  by (auto simp: start_char_def is_ws_def is_digit_def)

lemma skip_ws_start: "start_char c \<Longrightarrow> skip_ws (c # cs) = c # cs"
  by (simp add: skip_ws_def start_char_not_ws)

lemma skip_ws_stringify: "skip_ws (JSON_stringify v @ r) = JSON_stringify v @ r"
  using stringify_start [of v] by (auto simp: skip_ws_start)

lemma skip_ws_punct:
  "skip_ws (CHR '','' # r) = CHR '','' # r" "skip_ws (CHR '']'' # r) = CHR '']'' # r"
  "skip_ws (CHR ''}'' # r) = CHR ''}'' # r" "skip_ws (CHR '':'' # r) = CHR '':'' # r"
  "skip_ws [] = []"
  by (simp_all add: skip_ws_def is_ws_def)

lemma ok_rest_punct: "ok_rest (CHR '','' # r)" "ok_rest (CHR '']'' # r)" "ok_rest (CHR ''}'' # r)" "ok_rest []"
  by (simp_all add: ok_rest_def)

lemma stringify_length_pos: "0 < length (JSON_stringify v)"
  using stringify_start [of v] by auto

lemma parse_value_number:
  assumes "ok_rest r"
  shows "parse_value (Suc n) (show_int i @ r) = Some (JNum i, r)"
proof -
  obtain c cs where c: "show_int i = c # cs" "c = CHR ''-'' \<or> is_digit c"
    using show_int_start [of i] by blast
  then have sc: "start_char c" by (auto simp: start_char_def)
  have ne: "c \<noteq> CHR ''{''" "c \<noteq> CHR ''[''" "c \<noteq> CHR 0x22" "c \<noteq> CHR ''t''" "c \<noteq> CHR ''f''" "c \<noteq> CHR ''n''"
    using c(2) by (auto simp: is_digit_def)
  have "parse_value (Suc n) ((c # cs) @ r) = parse_number ((c # cs) @ r)"
    using ne by (simp add: skip_ws_start [OF sc])
  then show ?thesis using parse_number_show_int [OF assms, of i] c(1) by simp
qed

lemma parse_value_string: "parse_value (Suc n) (quote s @ r) = Some (JStr s, r)"
proof -
  have sc: "start_char (CHR 0x22)" by (simp add: start_char_def)
  show ?thesis unfolding quote_def
    by (simp add: skip_ws_start [OF sc] parse_chars_quoted)
qed

lemma parse_value_literals:
  "parse_value (Suc n) (''null'' @ r) = Some (JNull, r)"
  "parse_value (Suc n) (''true'' @ r) = Some (JBool True, r)"
  "parse_value (Suc n) (''false'' @ r) = Some (JBool False, r)"
  by (simp_all add: skip_ws_def is_ws_def)

lemma parse_elements_back:
  assumes "\<forall>v \<in> set vs. parses_back v" "vs \<noteq> []"
    and "Suc (length (stringify_elements vs)) \<le> m"
  shows "parse_elements m (stringify_elements vs @ CHR '']'' # r) = Some (vs, r)"
  using assms
proof (induction vs arbitrary: m)
  case Nil
  then show ?case by simp
next
  case (Cons v vs)
  from Cons.prems(3) obtain m' where m: "m = Suc m'" by (cases m) auto
  have pv: "parses_back v" using Cons.prems(1) by simp
  show ?case
  proof (cases vs)
    case Nil
    have "length (JSON_stringify v) \<le> m'" using Cons.prems(3) m Nil by simp
    with pv have "parse_value m' (JSON_stringify v @ CHR '']'' # r) = Some (v, CHR '']'' # r)"
      by (simp add: parses_back_def ok_rest_punct)
    then show ?thesis using m Nil by (simp add: skip_ws_punct)
  next
    case (Cons w ws)
    have len: "length (JSON_stringify v) \<le> m'" "Suc (length (stringify_elements vs)) \<le> m'"
      using Cons.prems(3) m Cons stringify_length_pos [of v] by simp_all
    from pv len(1)
    have "parse_value m' (JSON_stringify v @ CHR '','' # stringify_elements vs @ CHR '']'' # r)
          = Some (v, CHR '','' # stringify_elements vs @ CHR '']'' # r)"
      by (simp add: parses_back_def ok_rest_punct)
    moreover have "parse_elements m' (stringify_elements vs @ CHR '']'' # r) = Some (vs, r)"
      using Cons.IH [of m'] Cons.prems(1) len(2) Cons by simp
    ultimately show ?thesis using m Cons by (simp add: skip_ws_punct)
  qed
qed

lemma parse_members_back:
  assumes "\<forall>p \<in> set kvs. parses_back (snd p)" "kvs \<noteq> []"
    and "Suc (length (stringify_members kvs)) \<le> m"
  shows "parse_members m (stringify_members kvs @ CHR ''}'' # r) = Some (kvs, r)"
  using assms
proof (induction kvs arbitrary: m)
  case Nil
  then show ?case by simp
next
  case (Cons p kvs)
  obtain k v where p: "p = (k, v)" by (cases p)
  from Cons.prems(3) obtain m' where m: "m = Suc m'" by (cases m) auto
  have pv: "parses_back v" using Cons.prems(1) p by simp
  have q: "\<And>t. skip_ws (quote k @ t) = CHR 0x22 # tl (quote k) @ t"
    by (simp add: quote_def skip_ws_def is_ws_def)
  show ?case
  proof (cases kvs)
    case Nil
    have "length (JSON_stringify v) \<le> m'" using Cons.prems(3) m Nil p by simp
    with pv have "parse_value m' (JSON_stringify v @ CHR ''}'' # r) = Some (v, CHR ''}'' # r)"
      by (simp add: parses_back_def ok_rest_punct)
    then show ?thesis using m Nil p by (simp add: q parse_chars_quote skip_ws_punct)
  next
    case (Cons p' kvs')
    have len: "length (JSON_stringify v) \<le> m'" "Suc (length (stringify_members kvs)) \<le> m'"
      using Cons.prems(3) m Cons p by simp_all
    from pv len(1)
    have "parse_value m' (JSON_stringify v @ CHR '','' # stringify_members kvs @ CHR ''}'' # r)
          = Some (v, CHR '','' # stringify_members kvs @ CHR ''}'' # r)"
      by (simp add: parses_back_def ok_rest_punct)
    moreover have "parse_members m' (stringify_members kvs @ CHR ''}'' # r) = Some (kvs, r)"
      using Cons.IH [of m'] Cons.prems(1) len(2) Cons by simp
    ultimately show ?thesis using m Cons p by (simp add: q parse_chars_quote skip_ws_punct)
  qed
qed

lemma obj_put_fresh: "k \<notin> fst ` set acc \<Longrightarrow> obj_put k v acc = acc @ [(k, v)]"
  by (induction acc) auto

lemma foldl_obj_put_distinct:
  "distinct (map fst (acc @ kvs)) \<Longrightarrow>
   foldl (\<lambda>acc p. obj_put (fst p) (snd p) acc) acc kvs = acc @ kvs"
proof (induction kvs arbitrary: acc)
  case Nil
  then show ?case by simp
next
  case (Cons p kvs)
  have "fst p \<notin> fst ` set acc" using Cons.prems by auto
  then have "obj_put (fst p) (snd p) acc = acc @ [p]" by (simp add: obj_put_fresh)
  moreover have "distinct (map fst ((acc @ [p]) @ kvs))" using Cons.prems by simp
  ultimately show ?case using Cons.IH [of "acc @ [p]"] by simp
qed

lemma mk_object_distinct: "distinct (map fst kvs) \<Longrightarrow> mk_object kvs = kvs"
  using foldl_obj_put_distinct [of "[]" kvs] by (simp add: mk_object_def)

lemma stringify_elements_start:
  "vs \<noteq> [] \<Longrightarrow> \<exists>c cs. stringify_elements vs @ t = c # cs \<and> start_char c"
proof (cases vs)
  case Nil
  assume "vs \<noteq> []" with Nil show ?thesis by simp
next
  case (Cons v ws)
  obtain c cs where "JSON_stringify v = c # cs" "start_char c" using stringify_start by blast
  then show ?thesis using Cons by (cases ws) auto
qed

lemma stringify_members_start:
  "kvs \<noteq> [] \<Longrightarrow> \<exists>cs. stringify_members kvs @ t = CHR 0x22 # cs"
proof (cases kvs)
  case Nil
  assume "kvs \<noteq> []" with Nil show ?thesis by simp
next
  case (Cons p ws)
  then show ?thesis by (cases p; cases ws) (auto simp: quote_def)
qed

lemma parses_back_wf: "wf_json v \<Longrightarrow> parses_back v"
proof (induction v)
  case JNull
  show ?case unfolding parses_back_def
  proof (intro allI impI)
    fix n r assume "length (JSON_stringify JNull) \<le> n"
    then obtain n' where "n = Suc n'" by (cases n) auto
    then show "parse_value n (JSON_stringify JNull @ r) = Some (JNull, r)"
      using parse_value_literals(1) [of n' r] by simp
  qed
next
  case (JBool b)
  show ?case unfolding parses_back_def
  proof (intro allI impI)
    fix n r assume "length (JSON_stringify (JBool b)) \<le> n"
    then obtain n' where "n = Suc n'" by (cases n) (auto split: if_splits)
    then show "parse_value n (JSON_stringify (JBool b) @ r) = Some (JBool b, r)"
      using parse_value_literals(2,3) [of n' r] by (cases b) simp_all
  qed
next
  case (JNum i)
  show ?case unfolding parses_back_def
  proof (intro allI impI)
    fix n r assume "length (JSON_stringify (JNum i)) \<le> n" and r: "ok_rest r"
    then obtain n' where "n = Suc n'"
      using stringify_length_pos [of "JNum i"] by (cases n) auto
    then show "parse_value n (JSON_stringify (JNum i) @ r) = Some (JNum i, r)"
      using parse_value_number [OF r, of n' i] by simp
  qed
next
  case (JStr s)
  show ?case unfolding parses_back_def
  proof (intro allI impI)
    fix n r assume "length (JSON_stringify (JStr s)) \<le> n"
    then obtain n' where "n = Suc n'"
      using stringify_length_pos [of "JStr s"] by (cases n) auto
    then show "parse_value n (JSON_stringify (JStr s) @ r) = Some (JStr s, r)"
      using parse_value_string [of n' s r] by simp
  qed
next
  case (JArr vs)
  have ih: "\<forall>v \<in> set vs. parses_back v" using JArr by simp
  show ?case unfolding parses_back_def
  proof (intro allI impI)
    fix n r assume len: "length (JSON_stringify (JArr vs)) \<le> n"
    then obtain n' where n: "n = Suc n'" by (cases n) auto
    have sc: "start_char (CHR ''['')" by (simp add: start_char_def)
    show "parse_value n (JSON_stringify (JArr vs) @ r) = Some (JArr vs, r)"
    proof (cases "vs = []")
      case True
      then show ?thesis using n by (simp add: skip_ws_start [OF sc] skip_ws_punct)
    next
      case False
      obtain c cs where c: "stringify_elements vs @ CHR '']'' # r = c # cs" "start_char c"
        using stringify_elements_start [OF False] by blast
      then have ne: "c \<noteq> CHR '']''" by (auto simp: start_char_def is_digit_def)
      have "parse_elements n' (stringify_elements vs @ CHR '']'' # r) = Some (vs, r)"
        using parse_elements_back [OF ih False, of n' r] len n by simp
      then show ?thesis using n c ne by (simp add: skip_ws_start [OF sc] skip_ws_start [OF c(2)])
    qed
  qed
next
  case (JObj kvs)
  have ih: "\<forall>p \<in> set kvs. parses_back (snd p)"
  proof
    fix p assume p: "p \<in> set kvs"
    then have "wf_json (snd p)" using JObj.prems by simp
    moreover have "snd p \<in> Basic_BNFs.snds p" by (cases p) simp
    ultimately show "parses_back (snd p)" using JObj.IH p by blast
  qed
  have d: "mk_object kvs = kvs" using JObj.prems by (simp add: mk_object_distinct)
  show ?case unfolding parses_back_def
  proof (intro allI impI)
    fix n r assume len: "length (JSON_stringify (JObj kvs)) \<le> n"
    then obtain n' where n: "n = Suc n'" by (cases n) auto
    have sc: "start_char (CHR ''{'')" by (simp add: start_char_def)
    show "parse_value n (JSON_stringify (JObj kvs) @ r) = Some (JObj kvs, r)"
    proof (cases "kvs = []")
      case True
      then show ?thesis using n by (simp add: skip_ws_start [OF sc] skip_ws_punct)
    next
      case False
      obtain cs where c: "stringify_members kvs @ CHR ''}'' # r = CHR 0x22 # cs"
        using stringify_members_start [OF False] by blast
      have sq: "start_char (CHR 0x22)" by (simp add: start_char_def)
      have "parse_members n' (stringify_members kvs @ CHR ''}'' # r) = Some (kvs, r)"
        using parse_members_back [OF ih False, of n' r] len n by simp
      then show ?thesis using n c d by (simp add: skip_ws_start [OF sc] skip_ws_start [OF sq])
    qed
  qed
qed

lemma JSON_parse_stringify:
  assumes "wf_json v"
  shows "JSON_parse (JSON_stringify v) = Inr v"
proof -
  have "parses_back v" using assms by (rule parses_back_wf)
  then have "parse_value (Suc (length (JSON_stringify v))) (JSON_stringify v @ []) = Some (v, [])"
    unfolding parses_back_def using ok_rest_punct(4) by (meson le_SucI order_refl)
  then show ?thesis by (simp add: JSON_parse_def skip_ws_punct)
qed

section \<open>The bound of the parser is immaterial\<close>

lemma skip_ws_length: "length (skip_ws s) \<le> length s"
  by (simp add: skip_ws_def length_dropWhile_le)

lemma skip_ws_Cons_length: "skip_ws s = c # cs \<Longrightarrow> length cs < length s"
  using skip_ws_length [of s] by simp

lemma parse_chars_shorter: "parse_chars s = Some (str, r) \<Longrightarrow> length r < length s"
proof (induction s arbitrary: str r rule: parse_chars.induct)
  case 1
  then show ?case by simp
next
  case (2 c cs)
  show ?case
  proof (cases "c = CHR 0x22")
    case True
    with 2(4) show ?thesis by simp
  next
    case nq: False
    show ?thesis
    proof (cases "c = CHR 0x5C")
      case True
      then obtain e es where cs: "cs = e # es" using 2(4) nq by (cases cs) auto
      show ?thesis
      proof (cases "e = CHR ''u''")
        case u: True
        then obtain h3 h2 h1 h0 t where es: "es = h3 # h2 # h1 # h0 # t"
          using 2(4) nq True cs by (auto split: list.splits)
        then obtain x str' where "unicode_escape h3 h2 h1 h0 = Some x" "parse_chars t = Some (str', r)"
          using 2(4) nq True cs u by (auto split: option.splits)
        then have "length r < length t" using 2(1) [OF nq True cs u es] by blast
        then show ?thesis using cs es by simp
      next
        case nu: False
        then obtain x str' where x: "unescape e = Some x" "parse_chars es = Some (str', r)"
          using 2(4) nq True cs by (auto split: option.splits)
        then have "length r < length es" using 2(2) [OF nq True cs nu] by blast
        then show ?thesis using cs by simp
      qed
    next
      case nb: False
      then obtain str' where nc: "\<not> (of_char c :: nat) < 32" and "parse_chars cs = Some (str', r)"
        using 2(4) nq by (auto split: option.splits if_splits)
      then have "length r < length cs" using 2(3) [OF nq nb nc] by blast
      then show ?thesis by simp
    qed
  qed
qed

lemma parse_number_shorter: "parse_number s = Some (v, r) \<Longrightarrow> length r < length s"
proof -
  assume a: "parse_number s = Some (v, r)"
  let ?neg = "(case s of [] \<Rightarrow> False | c # r \<Rightarrow> c = CHR ''-'')"
  let ?body = "if ?neg then tl s else s"
  have r: "r = dropWhile is_digit ?body" and ne: "takeWhile is_digit ?body \<noteq> []"
    using a by (auto simp: parse_number_def Let_def split: if_splits)
  have "length (takeWhile is_digit ?body) + length (dropWhile is_digit ?body) = length ?body"
    by (metis length_append takeWhile_dropWhile_id)
  then have "length r < length ?body" using r ne by (cases "takeWhile is_digit ?body") auto
  moreover have "length ?body \<le> length s" by simp
  ultimately show ?thesis by simp
qed


lemma nonzero_fuel: "length r < length s \<Longrightarrow> n \<ge> length s - length r \<Longrightarrow> \<exists>k. n = Suc k"
  by (cases n) auto

lemma fuel_free_value_Suc:
  assumes e: "fuel_free_elements m" and mb: "fuel_free_members m"
  shows "fuel_free_value (Suc m)"
  unfolding fuel_free_value_def
proof (intro allI impI)
  fix s v r
  assume a: "parse_value (Suc m) s = Some (v, r)"
  then obtain c cs where sk: "skip_ws s = c # cs" by (cases "skip_ws s") auto
  have lcs: "length cs < length s" using sk by (rule skip_ws_Cons_length)
  consider (obj) "c = CHR ''{''" | (arr) "c = CHR ''[''" "c \<noteq> CHR ''{''"
    | (leaf) "c \<noteq> CHR ''[''" "c \<noteq> CHR ''{''" by blast
  then show "length r < length s \<and> (\<forall>n \<ge> length s - length r. parse_value n s = Some (v, r))"
  proof cases
    case obj
    then obtain d ds where sk2: "skip_ws cs = d # ds" using a sk by (cases "skip_ws cs") auto
    have lds: "length ds < length cs" using sk2 by (rule skip_ws_Cons_length)
    show ?thesis
    proof (cases "d = CHR ''}''")
      case True
      then have r: "r = ds" "v = JObj []" using a sk sk2 obj by auto
      have "parse_value (Suc k) s = Some (v, r)" for k using sk sk2 obj True r by simp
      moreover have "length r < length s" using r lds lcs by simp
      ultimately show ?thesis by (auto simp: Suc_le_D dest!: nonzero_fuel)
    next
      case False
      then obtain kvs where pm: "parse_members m (d # ds) = Some (kvs, r)" and v: "v = JObj (mk_object kvs)"
        using a sk sk2 obj by (auto split: option.splits)
      have ih: "length r < length (d # ds)"
        "\<forall>n \<ge> length (d # ds) - length r. parse_members n (d # ds) = Some (kvs, r)"
        using mb pm unfolding fuel_free_members_def by blast+
      have l: "length r < length s" using ih(1) lds lcs by simp
      have "parse_value n s = Some (v, r)" if n: "n \<ge> length s - length r" for n
      proof -
        obtain k where k: "n = Suc k" using n l by (cases n) auto
        have "k \<ge> length (d # ds) - length r" using n k lds lcs by simp
        then have "parse_members k (d # ds) = Some (kvs, r)" using ih(2) by blast
        then show ?thesis using k sk sk2 obj False v by simp
      qed
      then show ?thesis using l by blast
    qed
  next
    case arr
    then obtain d ds where sk2: "skip_ws cs = d # ds" using a sk by (cases "skip_ws cs") auto
    have lds: "length ds < length cs" using sk2 by (rule skip_ws_Cons_length)
    show ?thesis
    proof (cases "d = CHR '']''")
      case True
      then have r: "r = ds" "v = JArr []" using a sk sk2 arr by auto
      have "parse_value (Suc k) s = Some (v, r)" for k using sk sk2 arr True r by simp
      moreover have "length r < length s" using r lds lcs by simp
      ultimately show ?thesis by (auto simp: Suc_le_D dest!: nonzero_fuel)
    next
      case False
      then obtain vs where pe: "parse_elements m (d # ds) = Some (vs, r)" and v: "v = JArr vs"
        using a sk sk2 arr by (auto split: option.splits)
      have ih: "length r < length (d # ds)"
        "\<forall>n \<ge> length (d # ds) - length r. parse_elements n (d # ds) = Some (vs, r)"
        using e pe unfolding fuel_free_elements_def by blast+
      have l: "length r < length s" using ih(1) lds lcs by simp
      have "parse_value n s = Some (v, r)" if n: "n \<ge> length s - length r" for n
      proof -
        obtain k where k: "n = Suc k" using n l by (cases n) auto
        have "k \<ge> length (d # ds) - length r" using n k lds lcs by simp
        then have "parse_elements k (d # ds) = Some (vs, r)" using ih(2) by blast
        then show ?thesis using k sk sk2 arr False v by simp
      qed
      then show ?thesis using l by blast
    qed
  next
    case leaf
    have same: "parse_value (Suc k) s = parse_value (Suc m) s" for k
      using sk leaf by simp
    have "length r < length s"
    proof (cases "c = CHR 0x22")
      case True
      then obtain str where "parse_chars cs = Some (str, r)"
        using a sk leaf by (auto split: option.splits)
      then show ?thesis using parse_chars_shorter lcs by fastforce
    next
      case nq: False
      show ?thesis
      proof (cases "c = CHR ''t'' \<or> c = CHR ''f'' \<or> c = CHR ''n''")
        case True
        then have "r = drop 3 cs \<or> r = drop 4 cs"
          using a sk leaf nq by (auto split: if_splits)
        then show ?thesis using lcs by auto
      next
        case False
        then have "parse_number (c # cs) = Some (v, r)" using a sk leaf nq by simp
        then have "length r < length (c # cs)" by (rule parse_number_shorter)
        then show ?thesis using sk skip_ws_length [of s] by simp
      qed
    qed
    moreover from this have "parse_value n s = Some (v, r)" if "n \<ge> length s - length r" for n
      using that same a by (cases n) auto
    ultimately show ?thesis by blast
  qed
qed


lemma fuel_free_elements_Suc:
  assumes v: "fuel_free_value m" and e: "fuel_free_elements m"
  shows "fuel_free_elements (Suc m)"
  unfolding fuel_free_elements_def
proof (intro allI impI)
  fix s vs r
  assume a: "parse_elements (Suc m) s = Some (vs, r)"
  then obtain x r1 where pv: "parse_value m s = Some (x, r1)"
    by (auto split: option.splits)
  have ihv: "length r1 < length s" "\<forall>n \<ge> length s - length r1. parse_value n s = Some (x, r1)"
    using v pv unfolding fuel_free_value_def by blast+
  obtain c cs where sk: "skip_ws r1 = c # cs" using a pv by (cases "skip_ws r1") auto
  have lcs: "length cs < length r1" using sk by (rule skip_ws_Cons_length)
  show "length r < length s \<and> (\<forall>n \<ge> length s - length r. parse_elements n s = Some (vs, r))"
  proof (cases "c = CHR '',''")
    case True
    then obtain vs' where pe: "parse_elements m cs = Some (vs', r)" and vs: "vs = x # vs'"
      using a pv sk by (auto split: option.splits)
    have ihe: "length r < length cs" "\<forall>n \<ge> length cs - length r. parse_elements n cs = Some (vs', r)"
      using e pe unfolding fuel_free_elements_def by blast+
    have l: "length r < length s" using ihe(1) lcs ihv(1) by simp
    have "parse_elements n s = Some (vs, r)" if n: "n \<ge> length s - length r" for n
    proof -
      obtain k where k: "n = Suc k" using n l by (cases n) auto
      have "k \<ge> length s - length r1" "k \<ge> length cs - length r"
        using n k ihe(1) lcs ihv(1) by simp_all
      then have "parse_value k s = Some (x, r1)" "parse_elements k cs = Some (vs', r)"
        using ihv(2) ihe(2) by blast+
      then show ?thesis using k sk True vs by simp
    qed
    then show ?thesis using l by blast
  next
    case False
    then have r: "c = CHR '']''" "r = cs" "vs = [x]"
      using a pv sk by (auto split: if_splits)
    have l: "length r < length s" using r lcs ihv(1) by simp
    have "parse_elements n s = Some (vs, r)" if n: "n \<ge> length s - length r" for n
    proof -
      obtain k where k: "n = Suc k" using n l by (cases n) auto
      have "k \<ge> length s - length r1" using n k r lcs ihv(1) by simp
      then have "parse_value k s = Some (x, r1)" using ihv(2) by blast
      then show ?thesis using k sk r by simp
    qed
    then show ?thesis using l by blast
  qed
qed

lemma fuel_free_members_Suc:
  assumes v: "fuel_free_value m" and mb: "fuel_free_members m"
  shows "fuel_free_members (Suc m)"
  unfolding fuel_free_members_def
proof (intro allI impI)
  fix s kvs r
  assume a: "parse_members (Suc m) s = Some (kvs, r)"
  then obtain c cs where sk: "skip_ws s = c # cs" by (cases "skip_ws s") auto
  have lcs: "length cs < length s" using sk by (rule skip_ws_Cons_length)
  have c: "c = CHR 0x22" using a sk by (auto split: if_splits)
  obtain k r0 where pc: "parse_chars cs = Some (k, r0)"
    using a sk c by (auto split: option.splits)
  have lr0: "length r0 < length cs" using pc by (rule parse_chars_shorter)
  obtain d ds where sk2: "skip_ws r0 = d # ds" using a sk c pc by (cases "skip_ws r0") auto
  have lds: "length ds < length r0" using sk2 by (rule skip_ws_Cons_length)
  have d: "d = CHR '':''" using a sk c pc sk2 by (auto split: if_splits)
  obtain x r1 where pv: "parse_value m ds = Some (x, r1)"
    using a sk c pc sk2 d by (auto split: option.splits)
  have ihv: "length r1 < length ds" "\<forall>n \<ge> length ds - length r1. parse_value n ds = Some (x, r1)"
    using v pv unfolding fuel_free_value_def by blast+
  obtain e es where sk3: "skip_ws r1 = e # es" using a sk c pc sk2 d pv by (cases "skip_ws r1") auto
  have les: "length es < length r1" using sk3 by (rule skip_ws_Cons_length)
  show "length r < length s \<and> (\<forall>n \<ge> length s - length r. parse_members n s = Some (kvs, r))"
  proof (cases "e = CHR '',''")
    case True
    then obtain kvs' where pm: "parse_members m es = Some (kvs', r)" and kvs: "kvs = (k, x) # kvs'"
      using a sk c pc sk2 d pv sk3 by (auto split: option.splits)
    have ihm: "length r < length es" "\<forall>n \<ge> length es - length r. parse_members n es = Some (kvs', r)"
      using mb pm unfolding fuel_free_members_def by blast+
    have l: "length r < length s" using ihm(1) les ihv(1) lds lr0 lcs by simp
    have "parse_members n s = Some (kvs, r)" if n: "n \<ge> length s - length r" for n
    proof -
      obtain j where j: "n = Suc j" using n l by (cases n) auto
      have "j \<ge> length ds - length r1" "j \<ge> length es - length r"
        using n j ihm(1) les ihv(1) lds lr0 lcs by simp_all
      then have "parse_value j ds = Some (x, r1)" "parse_members j es = Some (kvs', r)"
        using ihv(2) ihm(2) by blast+
      then show ?thesis using j sk c pc sk2 d sk3 True kvs by simp
    qed
    then show ?thesis using l by blast
  next
    case False
    then have r: "e = CHR ''}''" "r = es" "kvs = [(k, x)]"
      using a sk c pc sk2 d pv sk3 by (auto split: if_splits)
    have l: "length r < length s" using r les ihv(1) lds lr0 lcs by simp
    have "parse_members n s = Some (kvs, r)" if n: "n \<ge> length s - length r" for n
    proof -
      obtain j where j: "n = Suc j" using n l by (cases n) auto
      have "j \<ge> length ds - length r1" using n j r les ihv(1) lds lr0 lcs by simp
      then have "parse_value j ds = Some (x, r1)" using ihv(2) by blast
      then show ?thesis using j sk c pc sk2 d sk3 r by simp
    qed
    then show ?thesis using l by blast
  qed
qed

lemma fuel_free: "fuel_free_value m \<and> fuel_free_elements m \<and> fuel_free_members m"
proof (induction m)
  case 0
  show ?case by (simp add: fuel_free_value_def fuel_free_elements_def fuel_free_members_def)
next
  case (Suc m)
  then show ?case
    using fuel_free_value_Suc fuel_free_elements_Suc fuel_free_members_Suc by blast
qed

text \<open>The bound of \<open>JSON_parse\<close> is enough: no other bound parses a text it rejects.\<close>

lemma JSON_parse_fuel:
  assumes "parse_value m s = Some (v, r)"
  shows "parse_value (Suc (length s)) s = Some (v, r)"
proof -
  have "fuel_free_value m" using fuel_free by blast
  then have "\<forall>n \<ge> length s - length r. parse_value n s = Some (v, r)"
    using assms unfolding fuel_free_value_def by blast
  moreover have "Suc (length s) \<ge> length s - length r" by simp
  ultimately show ?thesis by blast
qed

section \<open>Every value the parser answers holds each key once\<close>

lemma obj_put_keys: "fst ` set (obj_put k v acc) = insert k (fst ` set acc)"
  by (induction acc) auto

lemma obj_put_distinct: "distinct (map fst acc) \<Longrightarrow> distinct (map fst (obj_put k v acc))"
proof (induction acc)
  case Nil
  then show ?case by simp
next
  case (Cons p acc)
  have "fst p \<notin> fst ` set (obj_put k v acc)" if "fst p \<noteq> k"
    using that Cons.prems by (simp add: obj_put_keys)
  then show ?case using Cons by auto
qed

lemma obj_put_member: "p \<in> set (obj_put k v acc) \<Longrightarrow> p = (k, v) \<or> p \<in> set acc"
  by (induction acc) (auto split: if_splits)

lemma foldl_obj_put_wf:
  assumes "distinct (map fst acc)" "\<forall>p \<in> set acc. wf_json (snd p)" "\<forall>p \<in> set kvs. wf_json (snd p)"
  shows "distinct (map fst (foldl (\<lambda>acc p. obj_put (fst p) (snd p) acc) acc kvs)) \<and>
         (\<forall>p \<in> set (foldl (\<lambda>acc p. obj_put (fst p) (snd p) acc) acc kvs). wf_json (snd p))"
  using assms
proof (induction kvs arbitrary: acc)
  case Nil
  then show ?case by simp
next
  case (Cons q kvs)
  let ?a = "obj_put (fst q) (snd q) acc"
  have d: "distinct (map fst ?a)" using Cons.prems(1) by (rule obj_put_distinct)
  have w: "\<forall>p \<in> set ?a. wf_json (snd p)"
    using Cons.prems(2,3) obj_put_member [of _ "fst q" "snd q" acc] by fastforce
  have k: "\<forall>p \<in> set kvs. wf_json (snd p)" using Cons.prems(3) by simp
  show ?case using Cons.IH [OF d w k] by simp
qed

lemma mk_object_wf:
  "\<forall>p \<in> set kvs. wf_json (snd p) \<Longrightarrow> wf_json (JObj (mk_object kvs))"
  using foldl_obj_put_wf [of "[]" kvs] by (simp add: mk_object_def)

lemma parse_number_wf: "parse_number s = Some (v, r) \<Longrightarrow> wf_json v"
  by (auto simp: parse_number_def Let_def split: if_splits)

lemma parse_wf:
  "(\<forall>s v r. parse_value m s = Some (v, r) \<longrightarrow> wf_json v) \<and>
   (\<forall>s vs r. parse_elements m s = Some (vs, r) \<longrightarrow> (\<forall>v \<in> set vs. wf_json v)) \<and>
   (\<forall>s kvs r. parse_members m s = Some (kvs, r) \<longrightarrow> (\<forall>p \<in> set kvs. wf_json (snd p)))"
proof (induction m)
  case 0
  show ?case by simp
next
  case (Suc m)
  have ihv: "wf_json v" if "parse_value m s = Some (v, r)" for s v r using Suc that by blast
  have ihe: "\<forall>v \<in> set vs. wf_json v" if "parse_elements m s = Some (vs, r)" for s vs r
    using Suc that by blast
  have ihm: "\<forall>p \<in> set kvs. wf_json (snd p)" if "parse_members m s = Some (kvs, r)" for s kvs r
    using Suc that by blast
  have v: "wf_json v" if a: "parse_value (Suc m) s = Some (v, r)" for s v r
  proof -
    obtain c cs where sk: "skip_ws s = c # cs" using a by (cases "skip_ws s") auto
    consider (obj) kvs where "v = JObj []" | (obj2) kvs d ds where "parse_members m (d # ds) = Some (kvs, r)" "v = JObj (mk_object kvs)"
      | (arr) "v = JArr []" | (arr2) vs d ds where "parse_elements m (d # ds) = Some (vs, r)" "v = JArr vs"
      | (str) str where "v = JStr str" | (lit) "v = JBool True \<or> v = JBool False \<or> v = JNull"
      | (num) "parse_number (c # cs) = Some (v, r)"
      using a sk by (auto split: list.splits if_splits option.splits)
    then show ?thesis
    proof cases
      case obj2
      then show ?thesis using ihm mk_object_wf by blast
    next
      case arr2
      then show ?thesis using ihe by auto
    next
      case num
      then show ?thesis by (rule parse_number_wf)
    qed auto
  qed
  have e: "\<forall>x \<in> set vs. wf_json x" if a: "parse_elements (Suc m) s = Some (vs, r)" for s vs r
  proof -
    obtain x r1 where pv: "parse_value m s = Some (x, r1)" using a by (auto split: option.splits)
    have wx: "wf_json x" using pv by (rule ihv)
    consider (one) "vs = [x]" | (more) vs' cs where "parse_elements m cs = Some (vs', r)" "vs = x # vs'"
      using a pv by (auto split: list.splits if_splits option.splits)
    then show ?thesis
    proof cases
      case one
      then show ?thesis using wx by simp
    next
      case more
      then show ?thesis using wx ihe [OF more(1)] by simp
    qed
  qed
  have mb: "\<forall>p \<in> set kvs. wf_json (snd p)" if a: "parse_members (Suc m) s = Some (kvs, r)" for s kvs r
  proof -
    consider (one) k x ds r1 where "parse_value m ds = Some (x, r1)" "kvs = [(k, x)]"
      | (more) k x ds r1 kvs' es where "parse_value m ds = Some (x, r1)"
          "parse_members m es = Some (kvs', r)" "kvs = (k, x) # kvs'"
      using a by (auto split: list.splits if_splits option.splits)
    then show ?thesis
    proof cases
      case one
      then show ?thesis using ihv [OF one(1)] by simp
    next
      case more
      then show ?thesis using ihv [OF more(1)] ihm [OF more(2)] by simp
    qed
  qed
  show ?case using v e mb by blast
qed

lemma JSON_parse_wf:
  assumes "JSON_parse s = Inr v"
  shows "wf_json v"
proof -
  obtain r where "parse_value (Suc (length s)) s = Some (v, r)"
    using assms unfolding JSON_parse_def by (auto split: option.splits if_splits simp del: parse_value.simps)
  then show ?thesis using parse_wf [of "Suc (length s)"] by blast
qed

lemma decodeMessage_wf: "decodeMessage raw = Some (m, f) \<Longrightarrow> wf_json m"
  unfolding decodeMessage_def decodeMessage_try_def JSON_parse_any_def
  by (auto split: sum.splits if_splits option.splits dest: JSON_parse_wf)


section \<open>The codec on what it wrote itself\<close>

lemma wrapper_wf:
  "wf_json (JObj ((case s of None \<Rightarrow> [] | Some i \<Rightarrow> [(''fromId'', JStr i)]) @
        [(''payload'', JStr p), (packetId, JBool True)]))"
  by (cases s) (simp_all add: packetId_def)

lemma decodeMessage_try_encode:
  assumes "wf_json m"
  shows "decodeMessage_try (encodeMessage m s) = Inr (Some (m, map_option JStr s))"
proof -
  let ?w = "JObj ((case s of None \<Rightarrow> [] | Some i \<Rightarrow> [(''fromId'', JStr i)]) @
        [(''payload'', JStr (JSON_stringify m)), (packetId, JBool True)])"
  have p: "JSON_parse (encodeMessage m s) = Inr ?w"
    unfolding encodeMessage_def by (rule JSON_parse_stringify) (rule wrapper_wf)
  have inner: "JSON_parse_any (Some (JStr (JSON_stringify m))) = Inr m"
    using assms by (simp add: JSON_parse_any_def JSON_parse_stringify)
  show ?thesis
    unfolding decodeMessage_try_def p
    using inner by (cases s) (simp_all add: packetId_def)
qed

lemma truthy_iff_not_falsy: "truthy m = (\<not> falsy m)"
  by (cases m) (auto simp: falsy_def)

lemma falsy_wf: "falsy m \<Longrightarrow> wf_json m"
  by (auto simp: falsy_def)

lemma same_state_childId: "childId st = c \<Longrightarrow> st\<lparr>childId := c\<rparr> = st"
  by simp

section \<open>Steps and runs of a Link\<close>

lemma config_error_iff:
  "config_error st =
     (isParent st \<and> ref st \<noteq> Some None \<and> (iframeId st = None \<or> iframeId st = Some []))"
  by (auto simp: config_error_def isParent_def split: option.splits)

lemma same_config_refl: "same_config st st"
  by (simp add: same_config_def)

lemma same_config_trans: "same_config a b \<Longrightarrow> same_config b c \<Longrightarrow> same_config a c"
  by (simp add: same_config_def)

lemma same_config_preds:
  assumes "same_config st st'"
  shows "isParent st' = isParent st" "isChild st' = isChild st" "isChildMounted st' = isChildMounted st"
    "config_error st' = config_error st" "ready_to_send st' = ready_to_send st"
    "post_action st' = post_action st"
  using assms
  by (auto simp: same_config_def isParent_def isChild_def isChildMounted_def config_error_iff
      ready_to_send_def post_action_def fun_eq_iff)

lemma same_config_mounted_for:
  "same_config st st' \<Longrightarrow> is_mounted_for st' raw = is_mounted_for st raw"
  by (auto simp: same_config_def is_mounted_for_def split: option.splits)

lemma foldl_apply_update_append:
  "foldl apply_update q (us @ [Append m]) = foldl apply_update q us @ [m]"
  by simp

lemma pending_queue_dispatch: "pending_queue (dispatch st m) = pending_queue st @ [m]"
  by (simp add: pending_queue_def dispatch_def)

lemma same_config_dispatch: "same_config st (dispatch st m)"
  by (simp add: same_config_def dispatch_def)

lemma render_simps:
  "queue (render st) = pending_queue st" "updates (render st) = []"
  "pending_queue (render st) = pending_queue st" "same_config st (render st)"
  by (simp_all add: render_def pending_queue_def same_config_def)

lemma postMessage_ready: "ready_to_send st \<Longrightarrow> postMessage st m = [post_action st m]"
  by (auto simp: ready_to_send_def postMessage_def post_action_def isChild_def isParent_def
      split: option.splits)

lemma drain_cycle_empty:
  assumes "\<not> config_error st" "pending_queue st = []"
  shows "drain_cycle st = Inr (render st, [])"
  using assms same_config_preds(4) [OF render_simps(4), of st]
  by (simp add: drain_cycle_def drain_effect_def render_simps)

lemma drain_cycle_send:
  assumes "ready_to_send st" "pending_queue st = m # q" "truthy m"
  shows "\<exists>st'. drain_cycle st = Inr (st', [post_action st m]) \<and> pending_queue st' = q \<and> same_config st st'"
proof -
  let ?r = "render st"
  have sc: "same_config st ?r" by (rule render_simps)
  have rdy: "ready_to_send ?r" using assms(1) sc by (simp add: same_config_preds)
  have ne: "\<not> config_error ?r"
    using rdy by (auto simp: ready_to_send_def config_error_iff isChild_def)
  have roles: "isParent ?r \<longrightarrow> isChildMounted ?r" "\<not> isParent ?r \<longrightarrow> isChild ?r"
    using rdy by (auto simp: ready_to_send_def isChild_def)
  let ?s = "?r\<lparr>updates := updates ?r @ [Slice1]\<rparr>"
  have "drain_effect ?r = (?s, postMessage ?r m)"
    using assms(2,3) roles by (auto simp: drain_effect_def render_simps)
  then have "drain_cycle st = Inr (?s, [post_action st m])"
    using ne postMessage_ready [OF rdy] sc by (simp add: drain_cycle_def same_config_preds)
  moreover have "pending_queue ?s = q"
    using assms(2) by (simp add: pending_queue_def render_def)
  moreover have "same_config st ?s" using sc by (simp add: same_config_def)
  ultimately show ?thesis by blast
qed

lemma ready_no_config_error: "ready_to_send st \<Longrightarrow> \<not> config_error st"
  by (auto simp: ready_to_send_def config_error_iff isChild_def)

lemma run_Cons_Inr:
  "step st e = Inr (s, a) \<Longrightarrow>
     fst (run st (e # es)) = a @ fst (run s es) \<and> snd (run st (e # es)) = snd (run s es)"
  by (cases "run s es") simp

lemma run_Cons_Inl: "step st e = Inl err \<Longrightarrow> run st (e # es) = ([], Inl err)"
  by simp

lemma posted_append: "posted (a @ b) = posted a @ posted b"
  by (induction a rule: posted.induct) simp_all

lemma run_fifo:
  assumes "ready_to_send st"
    and "\<forall>m \<in> set (pending_queue st). truthy m" and "\<forall>m \<in> set (submitted es). truthy m"
    and "\<forall>e \<in> set es. \<not> is_receive e"
  shows "\<exists>st'. run st es = (map (post_action st) (fst (fifo_spec (pending_queue st) es)), Inr st')
          \<and> pending_queue st' = snd (fifo_spec (pending_queue st) es) \<and> same_config st st'"
  using assms
proof (induction es arbitrary: st)
  case Nil
  then show ?case by (simp add: same_config_refl)
next
  case (Cons e es)
  show ?case
  proof (cases e)
    case (Submit m)
    let ?d = "dispatch st m"
    have sc: "same_config st ?d" by (rule same_config_dispatch)
    have "ready_to_send ?d" using Cons.prems(1) sc by (simp add: same_config_preds)
    moreover have "\<forall>x \<in> set (pending_queue ?d). truthy x"
      using Cons.prems(2,3) Submit by (simp add: pending_queue_dispatch)
    moreover have "\<forall>x \<in> set (submitted es). truthy x" using Cons.prems(3) Submit by simp
    moreover have "\<forall>x \<in> set es. \<not> is_receive x" using Cons.prems(4) by simp
    ultimately obtain st' where
      "run ?d es = (map (post_action ?d) (fst (fifo_spec (pending_queue ?d) es)), Inr st')"
      "pending_queue st' = snd (fifo_spec (pending_queue ?d) es)" "same_config ?d st'"
      using Cons.IH [of ?d] by blast
    moreover from this have "same_config st st'" using sc same_config_trans by blast
    ultimately show ?thesis
      using Submit same_config_preds(6) [OF sc]
      by (simp add: step_def pending_queue_dispatch)
  next
    case Cycle
    show ?thesis
    proof (cases "pending_queue st")
      case Nil
      let ?r = "render st"
      have dc: "drain_cycle st = Inr (?r, [])"
        using Cons.prems(1) Nil by (simp add: drain_cycle_empty ready_no_config_error)
      have sc: "same_config st ?r" by (rule render_simps)
      have "ready_to_send ?r" using Cons.prems(1) sc by (simp add: same_config_preds)
      moreover have "\<forall>x \<in> set (pending_queue ?r). truthy x" using Nil by (simp add: render_simps)
      moreover have "\<forall>x \<in> set (submitted es). truthy x" using Cons.prems(3) Cycle by simp
      moreover have "\<forall>x \<in> set es. \<not> is_receive x" using Cons.prems(4) by simp
      ultimately obtain st' where
        "run ?r es = (map (post_action ?r) (fst (fifo_spec (pending_queue ?r) es)), Inr st')"
        "pending_queue st' = snd (fifo_spec (pending_queue ?r) es)" "same_config ?r st'"
        using Cons.IH [of ?r] by blast
      moreover from this have "same_config st st'" using sc same_config_trans by blast
      ultimately show ?thesis
        using Cycle Nil dc same_config_preds(6) [OF sc]
        by (simp add: step_def render_simps(3))
    next
      case (Cons m q)
      have tm: "truthy m" using Cons.prems(2) Cons by simp
      obtain s where s: "drain_cycle st = Inr (s, [post_action st m])" "pending_queue s = q"
        "same_config st s"
        using drain_cycle_send [OF Cons.prems(1) Cons tm] by blast
      have "ready_to_send s" using Cons.prems(1) s(3) by (simp add: same_config_preds)
      moreover have "\<forall>x \<in> set (pending_queue s). truthy x" using Cons.prems(2) Cons s(2) by simp
      moreover have "\<forall>x \<in> set (submitted es). truthy x" using Cons.prems(3) Cycle by simp
      moreover have "\<forall>x \<in> set es. \<not> is_receive x" using Cons.prems(4) by simp
      ultimately obtain st' where
        "run s es = (map (post_action s) (fst (fifo_spec (pending_queue s) es)), Inr st')"
        "pending_queue st' = snd (fifo_spec (pending_queue s) es)" "same_config s st'"
        using Cons.IH [of s] by blast
      moreover from this have "same_config st st'" using s(3) same_config_trans by blast
      ultimately show ?thesis
        using Cycle Cons s(1,2) same_config_preds(6) [OF s(3)]
        by (simp add: step_def split: prod.splits)
    qed
  next
    case (Receive raw)
    then show ?thesis using Cons.prems(4) by simp
  qed
qed

lemma fifo_spec_conserves: "fst (fifo_spec q es) @ snd (fifo_spec q es) = q @ submitted es"
  by (induction q es rule: fifo_spec.induct) (auto split: prod.splits)

lemma fifo_spec_cycles: "fifo_spec q (replicate (length q) Cycle) = (q, [])"
  by (induction q) auto

lemma same_frame_refl: "same_frame st st"
  by (simp add: same_frame_def)

lemma same_frame_trans: "same_frame a b \<Longrightarrow> same_frame b c \<Longrightarrow> same_frame a c"
  by (auto simp: same_frame_def)

lemma same_config_frame: "same_config st st' \<Longrightarrow> same_frame st st'"
  by (simp add: same_config_def same_frame_def)

lemma same_frame_ready: "same_frame st st' \<Longrightarrow> ready_to_send st \<Longrightarrow> ready_to_send st'"
  by (auto simp: same_frame_def ready_to_send_def isChild_def isParent_def isChildMounted_def
      config_error_iff)

lemma same_frame_post_of: "same_frame st st' \<Longrightarrow> post_of st' a m \<Longrightarrow> post_of st a m"
  by (auto simp: same_frame_def post_of_def post_action_def isParent_def)

lemma is_post_post_action: "is_post (post_action st m)"
  by (simp add: post_action_def)

lemma step_receive_frame:
  "\<exists>st' acts. step st (Receive raw) = Inr (st', acts) \<and> filter is_post acts = [] \<and>
     same_frame st st' \<and> pending_queue st' = pending_queue st"
  unfolding step_def eventListener_def handlePrivateMessage_def
  by (auto simp: same_frame_def pending_queue_def split: option.splits sum.splits)

lemma run_fifo_receiving:
  assumes "ready_to_send st"
    and "\<forall>m \<in> set (pending_queue st). truthy m" and "\<forall>m \<in> set (submitted es). truthy m"
  shows "\<exists>st'. snd (run st es) = Inr st'
          \<and> pending_queue st' = snd (fifo_spec (pending_queue st) es)
          \<and> list_all2 (post_of st) (filter is_post (fst (run st es))) (fst (fifo_spec (pending_queue st) es))"
  using assms
proof (induction es arbitrary: st)
  case Nil
  then show ?case by simp
next
  case (Cons e es)
  have next_state: ?case
    if st: "step st e = Inr (s, acts)" "same_frame st s"
      "\<forall>m \<in> set (pending_queue s). truthy m"
      "fifo_spec (pending_queue st) (e # es) = (sent @ fst (fifo_spec (pending_queue s) es), snd (fifo_spec (pending_queue s) es))"
      "list_all2 (post_of st) (filter is_post acts) sent" for s acts sent
  proof -
    have "ready_to_send s" using st(2) Cons.prems(1) by (rule same_frame_ready)
    moreover have "\<forall>m \<in> set (submitted es). truthy m"
      using Cons.prems(3) by (cases e) simp_all
    ultimately obtain st' where ih: "snd (run s es) = Inr st'"
      "pending_queue st' = snd (fifo_spec (pending_queue s) es)"
      "list_all2 (post_of s) (filter is_post (fst (run s es))) (fst (fifo_spec (pending_queue s) es))"
      using Cons.IH [of s] st(3) by blast
    have "list_all2 (post_of st) (filter is_post (fst (run s es))) (fst (fifo_spec (pending_queue s) es))"
      using ih(3) same_frame_post_of [OF st(2)] by (rule list_all2_mono)
    then have "list_all2 (post_of st) (filter is_post (acts @ fst (run s es)))
        (sent @ fst (fifo_spec (pending_queue s) es))"
      using st(5) by (simp add: list_all2_appendI)
    then show ?thesis
      using ih(1,2) st(4) run_Cons_Inr [OF st(1), of es] by simp
  qed
  show ?case
  proof (cases e)
    case (Submit m)
    show ?thesis
    proof (rule next_state [where sent = "[]"])
      show "step st e = Inr (dispatch st m, [])" using Submit by (simp add: step_def)
      show "same_frame st (dispatch st m)" by (simp add: same_config_frame same_config_dispatch)
      show "\<forall>x \<in> set (pending_queue (dispatch st m)). truthy x"
        using Cons.prems(2,3) Submit by (simp add: pending_queue_dispatch)
      show "fifo_spec (pending_queue st) (e # es)
          = ([] @ fst (fifo_spec (pending_queue (dispatch st m)) es), snd (fifo_spec (pending_queue (dispatch st m)) es))"
        using Submit by (simp add: pending_queue_dispatch)
      show "list_all2 (post_of st) (filter is_post []) []" by simp
    qed
  next
    case Cycle
    show ?thesis
    proof (cases "pending_queue st")
      case Nil
      show ?thesis
      proof (rule next_state [where sent = "[]"])
        show "step st e = Inr (render st, [])"
          using Cycle Nil Cons.prems(1) by (simp add: step_def drain_cycle_empty ready_no_config_error)
        show "same_frame st (render st)" by (simp add: same_config_frame render_simps)
        show "\<forall>x \<in> set (pending_queue (render st)). truthy x" using Nil by (simp add: render_simps)
        show "fifo_spec (pending_queue st) (e # es)
          = ([] @ fst (fifo_spec (pending_queue (render st)) es), snd (fifo_spec (pending_queue (render st)) es))"
          using Cycle Nil by (simp add: render_simps)
        show "list_all2 (post_of st) (filter is_post []) []" by simp
      qed
    next
      case (Cons m q)
      have tm: "truthy m" using Cons.prems(2) Cons by simp
      obtain s where s: "drain_cycle st = Inr (s, [post_action st m])" "pending_queue s = q"
        "same_config st s"
        using drain_cycle_send [OF Cons.prems(1) Cons tm] by blast
      show ?thesis
      proof (rule next_state [where sent = "[m]"])
        show "step st e = Inr (s, [post_action st m])" using Cycle s(1) by (simp add: step_def)
        show "same_frame st s" using s(3) by (rule same_config_frame)
        show "\<forall>x \<in> set (pending_queue s). truthy x" using Cons.prems(2) Cons s(2) by simp
        show "fifo_spec (pending_queue st) (e # es)
          = ([m] @ fst (fifo_spec (pending_queue s) es), snd (fifo_spec (pending_queue s) es))"
          using Cycle Cons s(2) by (simp split: prod.splits)
        show "list_all2 (post_of st) (filter is_post [post_action st m]) [m]"
          by (simp add: is_post_post_action post_of_def)
      qed
    qed
  next
    case (Receive raw)
    obtain s acts where r: "step st (Receive raw) = Inr (s, acts)" "filter is_post acts = []"
      "same_frame st s" "pending_queue s = pending_queue st"
      using step_receive_frame by blast
    show ?thesis
    proof (rule next_state [where sent = "[]"])
      show "step st e = Inr (s, acts)" using Receive r(1) by simp
      show "same_frame st s" by (rule r(3))
      show "\<forall>x \<in> set (pending_queue s). truthy x" using Cons.prems(2) r(4) by simp
      show "fifo_spec (pending_queue st) (e # es)
          = ([] @ fst (fifo_spec (pending_queue s) es), snd (fifo_spec (pending_queue s) es))"
        using Receive r(4) by simp
      show "list_all2 (post_of st) (filter is_post acts) []" using r(2) by simp
    qed
  qed
qed

lemma eventListener_posts_nothing:
  "eventListener st raw = Inr (st', acts) \<Longrightarrow> posted acts = []"
  unfolding eventListener_def
  by (auto split: option.splits sum.splits if_splits)

lemma after_receive_pending_parent:
  assumes "childId st = None"
  shows "after_receive st raw = (if is_mounted_for st raw then st\<lparr>childId := iframeId st\<rparr> else st)"
  using assms
  unfolding after_receive_def eventListener_def is_mounted_for_def handlePrivateMessage_def
  by (auto split: option.splits sum.splits simp: same_state_childId)

lemma step_receive_pending:
  assumes "childId st = None" "\<not> is_mounted_for st raw"
  shows "\<exists>acts. step st (Receive raw) = Inr (st, acts) \<and> posted acts = []"
proof (cases "eventListener st raw")
  case (Inl e)
  then show ?thesis by (simp add: step_def)
next
  case (Inr r)
  obtain st' acts where r: "r = (st', acts)" by (cases r)
  have "after_receive st raw = st" using assms by (simp add: after_receive_pending_parent)
  then have "st' = st" using Inr r by (simp add: after_receive_def)
  then show ?thesis using Inr r eventListener_posts_nothing [of st raw st' acts] by (simp add: step_def)
qed

lemma drain_cycle_pending_parent:
  assumes "isParent st" "childId st = None"
  shows "drain_cycle st = (if config_error st then Inl (Error ''iframes must have an ID set'')
                          else Inr (render st, []))"
proof -
  have sc: "same_config st (render st)" by (rule render_simps)
  have "isParent (render st)" "\<not> isChildMounted (render st)"
    using assms same_config_preds(1,3) [OF sc] by (simp_all add: isChildMounted_def)
  then have "drain_effect (render st) = (render st, [])"
    by (simp add: drain_effect_def split: list.splits)
  then show ?thesis using same_config_preds(4) [OF sc] by (simp add: drain_cycle_def)
qed

lemma run_pending_parent:
  assumes "isParent st" "childId st = None"
    and "\<forall>raw. Receive raw \<in> set es \<longrightarrow> \<not> is_mounted_for st raw"
  shows "posted (fst (run st es)) = [] \<and>
         (\<not> config_error st \<longrightarrow>
            (\<exists>st'. snd (run st es) = Inr st' \<and> pending_queue st' = pending_queue st @ submitted es
                   \<and> same_config st st'))"
  using assms
proof (induction es arbitrary: st)
  case Nil
  then show ?case by (simp add: same_config_refl)
next
  case (Cons e es)
  have next_state: "posted (fst (run st (e # es))) = [] \<and>
         (\<not> config_error st \<longrightarrow>
            (\<exists>st'. snd (run st (e # es)) = Inr st' \<and>
                   pending_queue st' = pending_queue st @ submitted (e # es) \<and> same_config st st'))"
    if st: "step st e = Inr (s, acts)" "posted acts = []" "same_config st s"
      "pending_queue s @ submitted es = pending_queue st @ submitted (e # es)" for s acts
  proof -
    have "isParent s" "childId s = None"
      using Cons.prems(1,2) st(3) by (simp_all add: same_config_preds) (simp add: same_config_def)
    moreover have "\<forall>raw. Receive raw \<in> set es \<longrightarrow> \<not> is_mounted_for s raw"
      using Cons.prems(3) st(3) by (simp add: same_config_mounted_for)
    ultimately have ih: "posted (fst (run s es)) = []"
      "\<not> config_error s \<longrightarrow> (\<exists>st'. snd (run s es) = Inr st' \<and>
          pending_queue st' = pending_queue s @ submitted es \<and> same_config s st')"
      using Cons.IH [of s] by blast+
    note rc = run_Cons_Inr [OF st(1), of es]
    have 1: "posted (fst (run st (e # es))) = []"
      using st(2) ih(1) rc by (simp add: posted_append)
    have 2: "\<exists>st'. snd (run st (e # es)) = Inr st' \<and>
                   pending_queue st' = pending_queue st @ submitted (e # es) \<and> same_config st st'"
      if "\<not> config_error st"
    proof -
      have "\<not> config_error s" using that st(3) by (simp add: same_config_preds)
      then obtain st' where "snd (run s es) = Inr st'"
        "pending_queue st' = pending_queue s @ submitted es" "same_config s st'"
        using ih(2) by blast
      moreover from this have "same_config st st'" using st(3) same_config_trans by blast
      ultimately show ?thesis using st(4) rc by auto
    qed
    show ?thesis using 1 2 by blast
  qed
  show ?case
  proof (cases e)
    case (Submit m)
    show ?thesis
    proof (rule next_state)
      show "step st e = Inr (dispatch st m, [])" using Submit by (simp add: step_def)
      show "posted [] = []" by simp
      show "same_config st (dispatch st m)" by (rule same_config_dispatch)
      show "pending_queue (dispatch st m) @ submitted es = pending_queue st @ submitted (e # es)"
        using Submit by (simp add: pending_queue_dispatch)
    qed
  next
    case Cycle
    show ?thesis
    proof (cases "config_error st")
      case True
      then have "step st e = Inl (Error ''iframes must have an ID set'')"
        using Cycle drain_cycle_pending_parent [OF Cons.prems(1,2)] by (simp add: step_def)
      then show ?thesis using True run_Cons_Inl [of st e] by simp
    next
      case False
      show ?thesis
      proof (rule next_state)
        show "step st e = Inr (render st, [])"
          using Cycle False drain_cycle_pending_parent [OF Cons.prems(1,2)] by (simp add: step_def)
        show "posted [] = []" by simp
        show "same_config st (render st)" by (rule render_simps)
        show "pending_queue (render st) @ submitted es = pending_queue st @ submitted (e # es)"
          using Cycle by (simp add: render_simps)
      qed
    qed
  next
    case (Receive raw)
    have "\<not> is_mounted_for st raw" using Cons.prems(3) Receive by simp
    then obtain acts where a: "step st (Receive raw) = Inr (st, acts)" "posted acts = []"
      using step_receive_pending [OF Cons.prems(2)] by blast
    show ?thesis
    proof (rule next_state)
      show "step st e = Inr (st, acts)" using a(1) Receive by simp
      show "posted acts = []" by (rule a(2))
      show "same_config st st" by (rule same_config_refl)
      show "pending_queue st @ submitted es = pending_queue st @ submitted (e # es)"
        using Receive by simp
    qed
  qed
qed

text \<open>
  The end-to-end scenario of the spec: a message submitted by the Parent before the
  handshake stays queued, and is posted once, after the \<^verbatim>\<open>mounted\<close> packet of its frame
  has arrived.
\<close>

lemma end_to_end_scenario:
  "fst (run parent_A
     [Submit (JObj [(''type'', JStr ''ping'')]), Cycle, Cycle, Receive (mounted_packet ''A''), Cycle, Cycle])
   = [PostToFrame (encodeMessage (JObj [(''type'', JStr ''ping'')]) None)]"
  by code_simp

section \<open>The event listener\<close>

lemma JSON_parse_wrapper:
  "JSON_parse (encodeMessage m s) =
     Inr (JObj ((case s of None \<Rightarrow> [] | Some i \<Rightarrow> [(''fromId'', JStr i)]) @
        [(''payload'', JStr (JSON_stringify m)), (packetId, JBool True)]))"
  unfolding encodeMessage_def by (rule JSON_parse_stringify) (rule wrapper_wf)

lemma decode_encode_sender:
  "decodeMessage (encodeMessage m s) = Some (x, f) \<Longrightarrow> f = map_option JStr s"
  unfolding decodeMessage_def decodeMessage_try_def JSON_parse_wrapper
  by (cases s) (auto simp: packetId_def split: sum.splits if_splits)

lemma listener_routes:
  assumes "isParent st" "decodeMessage raw = Some (m, f)" "truthy m" "isPrivateMessage m = Inr False"
  shows "eventListener st raw = Inr (st, if map_option JStr (iframeId st) = f then [Handle m] else [])"
  using assms by (simp add: eventListener_def)

lemma listener_handles_only_matching:
  assumes "isParent st" "eventListener st raw = Inr (st', acts)" "Handle x \<in> set acts"
  shows "decodeMessage raw = Some (x, map_option JStr (iframeId st))"
  using assms unfolding eventListener_def
  by (auto split: option.splits sum.splits if_splits)

lemma listener_isolation:
  assumes "isParent st" "iframeId st = Some a" "a \<noteq> b"
    and "eventListener st (encodeMessage m (Some b)) = Inr (st', acts)"
  shows "Handle y \<notin> set acts"
proof
  assume "Handle y \<in> set acts"
  then have "decodeMessage (encodeMessage m (Some b)) = Some (y, map_option JStr (iframeId st))"
    using listener_handles_only_matching [OF assms(1,4)] by simp
  then have "map_option JStr (iframeId st) = map_option JStr (Some b)"
    by (rule decode_encode_sender)
  then show False using assms(2,3) by simp
qed

lemma decode_mounted_packet:
  "decodeMessage (encodeMessage (mounted_message i) s) = Some (mounted_message i, map_option JStr s)"
  by (simp add: decodeMessage_def decodeMessage_try_encode mounted_message_def)

lemma after_receive_other_mounted:
  assumes "decodeMessage raw = Some (mounted_message j, f)" "iframeId st \<noteq> Some j"
  shows "after_receive st raw = st"
  using assms
  by (cases "iframeId st")
     (simp_all add: after_receive_def eventListener_def mounted_message_def handlePrivateMessage_def)

section \<open>The setter of the shared state\<close>

lemma setInternalState_same:
  "setInternalState same_ref (JNum 1) now (st\<lparr>internalState := JNum 1\<rparr>) = st\<lparr>internalState := JNum 1\<rparr>"
  by (simp add: setInternalState_def Object_is_def)

lemma setInternalState_mutation:
  "\<not> Object_is same_ref v (internalState st) \<Longrightarrow> setInternalState same_ref v now st = local_mutation v now st"
  by (simp add: setInternalState_def)

section \<open>The claims\<close>



text \<open>
  C2. Marker discrimination and totality of decode: for every string that is not the JSON
  text of an object whose marker property is exactly \<^verbatim>\<open>true\<close> (unparseable text, a JSON
  value that is no object, an object without the marker or with another value under it),
  \<open>decodeMessage\<close> answers \<^verbatim>\<open>undefined\<close>; whatever the \<^verbatim>\<open>try\<close> block throws there is caught.
\<close>

theorem decode_absent_unless_marked:
  "\<not> marked_wrapper raw \<Longrightarrow>
     decodeMessage raw = None \<and>
     (decodeMessage_try raw = Inr None \<or> decodeMessage_try raw = Inl SyntaxError \<or>
      decodeMessage_try raw = Inl TypeError)"
proof -
  assume a: "\<not> marked_wrapper raw"
  have p: "JSON_parse raw = Inl SyntaxError \<or> (\<exists>v. JSON_parse raw = Inr v)"
    by (auto simp: JSON_parse_def split: option.splits)
  have "decodeMessage_try raw = Inr None \<or> decodeMessage_try raw = Inl SyntaxError \<or>
      decodeMessage_try raw = Inl TypeError"
    using a p unfolding marked_wrapper_def decodeMessage_try_def
    by (auto split: sum.splits json.splits)
  then show ?thesis by (auto simp: decodeMessage_def)
qed

theorem decode_absent_unless_marked_witness:
  "\<not> marked_wrapper ''hello'' \<and> decodeMessage ''hello'' = None \<and>
   \<not> marked_wrapper ''5'' \<and> decodeMessage ''5'' = None \<and> decodeMessage_try ''5'' = Inl TypeError \<and>
   \<not> marked_wrapper ''{\"payload\":\"1\"}'' \<and> decodeMessage ''{\"payload\":\"1\"}'' = None \<and>
   \<not> marked_wrapper ''{\"payload\":\"1\",\"__fromUseIframeHook\":1}'' \<and>
   decodeMessage ''{\"payload\":\"1\",\"__fromUseIframeHook\":1}'' = None"
proof -
  have 1: "\<not> marked_wrapper ''hello''" by code_simp
  have 2: "\<not> marked_wrapper ''5''" by code_simp
  have 3: "\<not> marked_wrapper ''{\"payload\":\"1\"}''" by code_simp
  have 4: "\<not> marked_wrapper ''{\"payload\":\"1\",\"__fromUseIframeHook\":1}''" by code_simp
  have 5: "decodeMessage_try ''5'' = Inl TypeError" by code_simp
  show ?thesis
    using decode_absent_unless_marked [OF 1] decode_absent_unless_marked [OF 2]
      decode_absent_unless_marked [OF 3] decode_absent_unless_marked [OF 4] 1 2 3 4 5
    by simp
qed

text \<open>
  C3. Pre-handshake gating: a Parent-side Link whose child is not mounted (no \<^verbatim>\<open>mounted\<close>
  packet for its frame has arrived) posts nothing on the channel, whatever is queued and
  whatever is submitted: in every run of submissions, drain cycles and inbound packets none
  of which is the \<^verbatim>\<open>mounted\<close> packet of its frame, the posts are none, and (when the hook
  renders at all) every submitted message is still in the queue.
\<close>

theorem pending_parent_posts_nothing:
  assumes "isParent st" and "childId st = None"
    and "\<forall>raw. Receive raw \<in> set es \<longrightarrow> \<not> is_mounted_for st raw"
  shows "posted (fst (run st es)) = [] \<and>
         (\<not> config_error st \<longrightarrow>
            (\<exists>st'. snd (run st es) = Inr st' \<and> \<not> isChildMounted st' \<and>
                   pending_queue st' = pending_queue st @ submitted es))"
proof -
  have "same_config st st' \<Longrightarrow> \<not> isChildMounted st'" for st'
    using assms(2) by (simp add: same_config_def isChildMounted_def)
  then show ?thesis using run_pending_parent [OF assms] by blast
qed

theorem pending_parent_posts_nothing_witness:
  "isParent parent_A \<and>
   childId parent_A = None \<and>
   posted (fst (run parent_A
     [Submit (JObj [(''type'', JStr ''ping'')]), Submit (JNum 7), Cycle,
      Receive (mounted_packet ''B''), Cycle,
      Receive (encodeMessage (JNum 42) (Some ''A'')), Submit (JStr ''x''), Cycle])) = []"
proof -
  let ?st = "parent_A"
  let ?es = "[Submit (JObj [(''type'', JStr ''ping'')]), Submit (JNum 7), Cycle,
      Receive (mounted_packet ''B''), Cycle,
      Receive (encodeMessage (JNum 42) (Some ''A'')), Submit (JStr ''x''), Cycle]"
  have 1: "isParent ?st" by code_simp
  have 2: "childId ?st = None" by code_simp
  have a: "\<not> is_mounted_for ?st (mounted_packet ''B'')" by code_simp
  have b: "\<not> is_mounted_for ?st (encodeMessage (JNum 42) (Some ''A''))" by code_simp
  have 3: "\<forall>raw. Receive raw \<in> set ?es \<longrightarrow> \<not> is_mounted_for ?st raw"
    using a b by auto
  show ?thesis using pending_parent_posts_nothing [OF 1 2 3] 1 2 by blast
qed

text \<open>
  C4, as amended. Queue ordering: on a Link that sends (a Child, or a Parent whose child is
  mounted and whose frame element and window are there), for truthy messages only. In every
  run of submissions, drain cycles and inbound packets, the hook goes on rendering and the
  posts are exactly the messages a strict FIFO with one head entry sent per cycle sends,
  each in the Link's envelope, in submission order (when no packet arrives these posts are
  all the run does); what was sent followed by what is still queued is what was queued
  followed by what was submitted (nothing lost, nothing twice, also for submissions between
  two cycles); and as many cycles as there are queued messages send them all.
\<close>

theorem queue_fifo_when_sending:
  assumes "ready_to_send st" and "\<forall>m \<in> set (pending_queue st @ submitted es). truthy m"
  shows "(\<exists>st'. snd (run st es) = Inr st' \<and> pending_queue st' = snd (fifo_spec (pending_queue st) es))
       \<and> list_all2 (post_of st) (filter is_post (fst (run st es))) (fst (fifo_spec (pending_queue st) es))
       \<and> ((\<forall>e \<in> set es. \<not> is_receive e) \<longrightarrow>
            fst (run st es) = map (post_action st) (fst (fifo_spec (pending_queue st) es)))
       \<and> fst (fifo_spec (pending_queue st) es) @ snd (fifo_spec (pending_queue st) es)
           = pending_queue st @ submitted es
       \<and> fst (run st (replicate (length (pending_queue st)) Cycle))
           = map (post_action st) (pending_queue st)"
proof -
  have t: "\<forall>m \<in> set (pending_queue st). truthy m" "\<forall>m \<in> set (submitted es). truthy m"
    using assms(2) by simp_all
  have a: "\<exists>st'. snd (run st es) = Inr st' \<and> pending_queue st' = snd (fifo_spec (pending_queue st) es)"
    and b: "list_all2 (post_of st) (filter is_post (fst (run st es))) (fst (fifo_spec (pending_queue st) es))"
    using run_fifo_receiving [OF assms(1) t] by blast+
  have c: "fst (run st es) = map (post_action st) (fst (fifo_spec (pending_queue st) es))"
    if "\<forall>e \<in> set es. \<not> is_receive e"
    using run_fifo [OF assms(1) t that] by auto
  let ?n = "length (pending_queue st)"
  have s: "submitted (replicate n Cycle) = []" for n by (induction n) simp_all
  have "\<exists>st'. run st (replicate ?n Cycle)
          = (map (post_action st) (fst (fifo_spec (pending_queue st) (replicate ?n Cycle))), Inr st')"
    using run_fifo [OF assms(1) t(1), of "replicate ?n Cycle"] by (auto simp: s)
  then have d: "fst (run st (replicate ?n Cycle)) = map (post_action st) (pending_queue st)"
    by (auto simp: fifo_spec_cycles)
  show ?thesis using a b c d fifo_spec_conserves by blast
qed

theorem queue_fifo_when_sending_witness:
  "ready_to_send established_A \<and>
   list_all2 (post_of established_A)
     (filter is_post (fst (run established_A
        [Submit (JObj [(''type'', JStr ''ping'')]), Receive (encodeMessage (JStr ''hi'') (Some ''A'')),
         Submit (JNum 7), Cycle, Receive (mounted_packet ''A''), Submit (JStr ''x''), Cycle, Cycle, Cycle])))
     [JObj [(''type'', JStr ''ping'')], JNum 7, JStr ''x''] \<and>
   fst (run established_A
        [Submit (JObj [(''type'', JStr ''ping'')]), Receive (encodeMessage (JStr ''hi'') (Some ''A'')),
         Submit (JNum 7), Cycle, Receive (mounted_packet ''A''), Submit (JStr ''x''), Cycle, Cycle, Cycle])
   = [Handle (JStr ''hi''),
      PostToFrame (encodeMessage (JObj [(''type'', JStr ''ping'')]) None),
      PostToFrame (encodeMessage (JNum 7) None),
      PostToFrame (encodeMessage (JStr ''x'') None)] \<and>
   ready_to_send (fst (child_mount_effect (Some ''frame-1'') fresh_child)) \<and>
   list_all2 (post_of (fst (child_mount_effect (Some ''frame-1'') fresh_child)))
     (filter is_post (fst (run (fst (child_mount_effect (Some ''frame-1'') fresh_child))
        [Submit (JStr ''a''), Cycle, Receive (encodeMessage (JStr ''hi'') None), Cycle, Cycle])))
     [mounted_message ''frame-1'', JStr ''a'']"
proof -
  let ?st = "established_A"
  let ?es = "[Submit (JObj [(''type'', JStr ''ping'')]), Receive (encodeMessage (JStr ''hi'') (Some ''A'')),
         Submit (JNum 7), Cycle, Receive (mounted_packet ''A''), Submit (JStr ''x''), Cycle, Cycle, Cycle]"
  let ?ch = "fst (child_mount_effect (Some ''frame-1'') fresh_child)"
  let ?fs = "[Submit (JStr ''a''), Cycle, Receive (encodeMessage (JStr ''hi'') None), Cycle, Cycle]"
  have 1: "ready_to_send ?st" by code_simp
  have q: "pending_queue ?st = []" by code_simp
  have 2: "\<forall>m \<in> set (pending_queue ?st @ submitted ?es). truthy m" by (simp add: q)
  have r: "fst (run ?st ?es) = [Handle (JStr ''hi''),
      PostToFrame (encodeMessage (JObj [(''type'', JStr ''ping'')]) None),
      PostToFrame (encodeMessage (JNum 7) None),
      PostToFrame (encodeMessage (JStr ''x'') None)]" by code_simp
  have 3: "ready_to_send ?ch" by code_simp
  have p: "pending_queue ?ch = [mounted_message ''frame-1'']" by code_simp
  have 4: "\<forall>m \<in> set (pending_queue ?ch @ submitted ?fs). truthy m"
    by (simp add: p mounted_message_def)
  show ?thesis
    using queue_fifo_when_sending [OF 1 2] queue_fifo_when_sending [OF 3 4] 1 3 r
    by (simp add: q p)
qed

text \<open>
  C4 as stated fails on the code, by the guards of \<^verbatim>\<open>postMessage\<close>: on an established Parent
  whose frame element is gone (\<^verbatim>\<open>ref.current\<close> is \<^verbatim>\<open>null\<close>), or has no window
  (\<^verbatim>\<open>contentWindow\<close> is \<^verbatim>\<open>null\<close>), a drain cycle removes the head entry and posts nothing: the
  submitted message is dropped.
\<close>

theorem queue_fifo_counterexample:
  "isParent (established_A\<lparr>ref := Some None\<rparr>) \<and>
   isChildMounted (established_A\<lparr>ref := Some None\<rparr>) \<and>
   fst (run (established_A\<lparr>ref := Some None\<rparr>)
     [Submit (JObj [(''type'', JStr ''ping'')]), Cycle, Cycle]) = [] \<and>
   map_sum id pending_queue
     (snd (run (established_A\<lparr>ref := Some None\<rparr>)
       [Submit (JObj [(''type'', JStr ''ping'')]), Cycle, Cycle]))
     = Inr [] \<and>
   isChildMounted (established_A\<lparr>ref := Some (Some \<lparr>el_id = ''A'', has_contentWindow = False\<rparr>)\<rparr>) \<and>
   fst (run (established_A\<lparr>ref := Some (Some \<lparr>el_id = ''A'', has_contentWindow = False\<rparr>)\<rparr>)
     [Submit (JObj [(''type'', JStr ''ping'')]), Cycle, Cycle]) = [] \<and>
   map_sum id pending_queue
     (snd (run (established_A\<lparr>ref := Some (Some \<lparr>el_id = ''A'', has_contentWindow = False\<rparr>)\<rparr>)
       [Submit (JObj [(''type'', JStr ''ping'')]), Cycle, Cycle]))
     = Inr []"
  by code_simp

text \<open>
  C5. Routing on a Parent-side Link, at the input where the code leaves the claim. The Link
  is bound to frame \<^verbatim>\<open>A\<close>. The application message \<^verbatim>\<open>false\<close> sent by the document in frame
  \<^verbatim>\<open>A\<close> arrives in an envelope whose sender id is \<^verbatim>\<open>A\<close>, the codec decodes it, and the handler
  is not called, because the listener takes the falsy message for a failed decode
  (\<^verbatim>\<open>if (message)\<close>); the same holds for \<^verbatim>\<open>0\<close>, the empty string and \<^verbatim>\<open>null\<close>. An object and
  \<^verbatim>\<open>true\<close> from frame \<^verbatim>\<open>A\<close> are handed to the handler, and an object from frame \<^verbatim>\<open>B\<close> is not.
\<close>

theorem parent_routing_drops_falsy:
  "isParent parent_A \<and> iframeId parent_A = Some ''A'' \<and>
   encodeMessage (JBool False) (Some ''A'') = ''{\"fromId\":\"A\",\"payload\":\"false\",\"__fromUseIframeHook\":true}'' \<and>
   decodeMessage ''{\"fromId\":\"A\",\"payload\":\"false\",\"__fromUseIframeHook\":true}''
     = Some (JBool False, Some (JStr ''A'')) \<and>
   eventListener parent_A ''{\"fromId\":\"A\",\"payload\":\"false\",\"__fromUseIframeHook\":true}''
     = Inr (parent_A, []) \<and>
   eventListener parent_A (encodeMessage (JNum 0) (Some ''A'')) = Inr (parent_A, []) \<and>
   eventListener parent_A (encodeMessage (JStr []) (Some ''A'')) = Inr (parent_A, []) \<and>
   eventListener parent_A (encodeMessage JNull (Some ''A'')) = Inr (parent_A, []) \<and>
   eventListener parent_A (encodeMessage (JObj [(''type'', JStr ''ping'')]) (Some ''A''))
     = Inr (parent_A, [Handle (JObj [(''type'', JStr ''ping'')])]) \<and>
   eventListener parent_A (encodeMessage (JBool True) (Some ''A''))
     = Inr (parent_A, [Handle (JBool True)]) \<and>
   eventListener parent_A (encodeMessage (JObj [(''type'', JStr ''ping'')]) (Some ''B''))
     = Inr (parent_A, [])"
  by code_simp

text \<open>
  C6. Handshake establishment: a Parent-side Link whose child is not mounted becomes
  established by an inbound packet exactly when the packet decodes to a private \<^verbatim>\<open>mounted\<close>
  message whose id is the id of the Link's frame, and then \<open>childId\<close> is that id; any other
  packet leaves the Link as it is. A \<^verbatim>\<open>mounted\<close> message with another id leaves any Link
  as it is.
\<close>

theorem handshake_established_exactly:
  assumes "isParent st"
  shows "(childId st = None \<longrightarrow>
            after_receive st raw = (if is_mounted_for st raw then st\<lparr>childId := iframeId st\<rparr> else st)
            \<and> (isChildMounted (after_receive st raw) \<longleftrightarrow> is_mounted_for st raw))
       \<and> (iframeId st = Some i \<longrightarrow> is_mounted_for st (encodeMessage (mounted_message i) s))
       \<and> (decodeMessage raw' = Some (mounted_message j, f) \<and> iframeId st \<noteq> Some j \<longrightarrow>
            after_receive st raw' = st)"
proof -
  have a: "after_receive st raw = (if is_mounted_for st raw then st\<lparr>childId := iframeId st\<rparr> else st)"
    if "childId st = None"
    using that by (rule after_receive_pending_parent)
  have b: "is_mounted_for st raw \<Longrightarrow> iframeId st \<noteq> None"
    by (auto simp: is_mounted_for_def split: option.splits)
  have c: "isChildMounted (after_receive st raw) \<longleftrightarrow> is_mounted_for st raw" if "childId st = None"
    using a [OF that] b that by (auto simp: isChildMounted_def)
  have d: "is_mounted_for st (encodeMessage (mounted_message i) s)" if "iframeId st = Some i"
    using that by (simp add: is_mounted_for_def decode_mounted_packet) (simp add: mounted_message_def)
  show ?thesis using a c d after_receive_other_mounted by blast
qed

theorem handshake_established_exactly_witness:
  "isParent parent_A \<and> childId parent_A = None \<and> iframeId parent_A = Some ''A'' \<and>
   is_mounted_for parent_A (mounted_packet ''A'') \<and>
   childId (after_receive parent_A (mounted_packet ''A'')) = Some ''A'' \<and>
   isChildMounted (after_receive parent_A (mounted_packet ''A'')) \<and>
   \<not> is_mounted_for parent_A (mounted_packet ''B'') \<and>
   after_receive parent_A (mounted_packet ''B'') = parent_A \<and>
   \<not> isChildMounted (after_receive parent_A (mounted_packet ''B''))"
proof -
  have p: "isParent parent_A" by code_simp
  have c: "childId parent_A = None" by code_simp
  have i: "iframeId parent_A = Some ''A''" by code_simp
  have nb: "\<not> is_mounted_for parent_A (mounted_packet ''B'')" by code_simp
  show ?thesis
    using p c i nb
      handshake_established_exactly [OF p, of "mounted_packet ''A''" "''A''" "Some ''A''"]
      handshake_established_exactly [OF p, of "mounted_packet ''B''" "''A''" "Some ''A''"]
    by (simp add: mounted_packet_def isChildMounted_def)
qed

text \<open>
  C7. Last write wins: the value the shared-state hook returns is the local value when the
  local timestamp is greater than the remote one, and the remote value otherwise. After a
  local mutation at clock reading \<open>t\<close> and a remote update stamped \<open>t'\<close> it is the local
  value exactly when \<open>t > t'\<close>: with a mutation stamped 10 and an update stamped 5 the local
  value, and after a further update stamped 15 the remote one.
\<close>

theorem last_write_wins:
  "observed st = (if local_age st > remote_age st then internalState st else remoteState st)
   \<and> observed (shared_handler (local_mutation v t st) \<lparr>msg_state = w, msg_time = t'\<rparr>)
       = (if t > t' then v else w)
   \<and> observed (shared_handler (local_mutation v 10 st) \<lparr>msg_state = w, msg_time = 5\<rparr>) = v
   \<and> observed (shared_handler (shared_handler (local_mutation v 10 st) \<lparr>msg_state = w, msg_time = 5\<rparr>)
        \<lparr>msg_state = u, msg_time = 15\<rparr>) = u"
  by (simp add: observed_def shared_handler_def local_mutation_def local_effect_def)

text \<open>
  C8, as amended. The local timestamp of a mutation is the clock reading \<open>now\<close> taken when
  its effect runs, whatever the previous timestamp was; it is greater than the previous one
  exactly when the clock reading is. The mutation keeps the value, and appends a message
  with that value and that timestamp to the Link's queue.
\<close>

theorem local_timestamp_is_clock:
  "local_age (local_mutation v now st) = now
   \<and> (local_age st < local_age (local_mutation v now st)) = (local_age st < now)
   \<and> internalState (local_mutation v now st) = v
   \<and> pending_queue (lnk (local_mutation v now st))
       = pending_queue (lnk st) @ [shared_message_json \<lparr>msg_state = v, msg_time = now\<rparr>]"
  by (simp add: local_mutation_def local_effect_def pending_queue_dispatch)

text \<open>
  C8 as stated fails on the code: the effect that runs after the first render in the same
  millisecond as the hook's initialisation, and a mutation in the same millisecond as that,
  leave the local timestamp where it was; a clock set back makes it smaller.
\<close>

theorem local_timestamp_counterexample:
  "local_age (new_shared_state 1000 (JNum 1) fresh_child) = 1000 \<and>
   local_age (local_effect 1000 (new_shared_state 1000 (JNum 1) fresh_child)) = 1000 \<and>
   local_age (local_mutation (JNum 2) 1000 (local_effect 1000 (new_shared_state 1000 (JNum 1) fresh_child))) = 1000 \<and>
   local_age (local_mutation (JNum 2) 999 (local_effect 1000 (new_shared_state 1000 (JNum 1) fresh_child))) = 999"
  by code_simp

text \<open>
  C9, as amended. On activation a Child that finds its frame posts nothing at that moment:
  it appends its \<^verbatim>\<open>mounted\<close> message to the same queue as the application messages, behind
  what is already queued, and sets its own \<open>childId\<close>. The Child's drain effect waits for no
  handshake: when every entry queued before is truthy, the drain cycles that follow post
  those entries in order, one per cycle, and then the \<^verbatim>\<open>mounted\<close> message, all with the
  Child's id as sender; with nothing queued before, the first cycle posts the \<^verbatim>\<open>mounted\<close>
  packet.
\<close>

theorem child_announcement_is_queued:
  assumes "isChild st"
  shows "snd (child_mount_effect (Some i) st) = []
       \<and> childId (fst (child_mount_effect (Some i) st)) = Some i
       \<and> pending_queue (fst (child_mount_effect (Some i) st)) = pending_queue st @ [mounted_message i]
       \<and> ((\<forall>m \<in> set (pending_queue st). truthy m) \<longrightarrow>
            fst (run (fst (child_mount_effect (Some i) st))
                     (replicate (Suc (length (pending_queue st))) Cycle))
              = map (\<lambda>m. PostToParent (encodeMessage m (Some i))) (pending_queue st @ [mounted_message i]))"
proof -
  let ?s = "fst (child_mount_effect (Some i) st)"
  have s: "?s = (dispatchPrivate st (mounted_message i))\<lparr>childId := Some i\<rparr>"
    using assms by (simp add: child_mount_effect_def)
  have q: "pending_queue ?s = pending_queue st @ [mounted_message i]"
    by (simp add: s dispatchPrivate_def pending_queue_def)
  have c: "isChild ?s" "\<not> isParent ?s" "childId ?s = Some i"
    using assms by (simp_all add: s dispatchPrivate_def isChild_def isParent_def)
  have r: "ready_to_send ?s" using c(1) by (simp add: ready_to_send_def)
  have pa: "post_action ?s = (\<lambda>m. PostToParent (encodeMessage m (Some i)))"
    using c by (simp add: post_action_def fun_eq_iff)
  have run: "fst (run ?s (replicate (Suc (length (pending_queue st))) Cycle))
              = map (\<lambda>m. PostToParent (encodeMessage m (Some i))) (pending_queue st @ [mounted_message i])"
    if t: "\<forall>m \<in> set (pending_queue st). truthy m"
  proof -
    have t': "\<forall>m \<in> set (pending_queue ?s). truthy m"
      using t by (simp add: q mounted_message_def)
    have n: "Suc (length (pending_queue st)) = length (pending_queue ?s)" by (simp add: q)
    have "submitted (replicate k Cycle) = []" for k by (induction k) simp_all
    then obtain st' where
      "run ?s (replicate (length (pending_queue ?s)) Cycle)
         = (map (post_action ?s) (fst (fifo_spec (pending_queue ?s) (replicate (length (pending_queue ?s)) Cycle))), Inr st')"
      using run_fifo [OF r t', of "replicate (length (pending_queue ?s)) Cycle"] by auto
    then have "fst (run ?s (replicate (length (pending_queue ?s)) Cycle))
         = map (post_action ?s) (pending_queue ?s)"
      by (simp only: fifo_spec_cycles fst_conv)
    then show ?thesis unfolding n by (simp only: pa q)
  qed
  show ?thesis using s q c(3) run assms by (simp add: child_mount_effect_def)
qed

theorem child_announcement_is_queued_witness:
  "isChild (dispatch fresh_child (JNum 7)) \<and>
   pending_queue (dispatch fresh_child (JNum 7)) = [JNum 7] \<and> truthy (JNum 7) \<and>
   snd (child_mount_effect (Some ''frame-1'') (dispatch fresh_child (JNum 7))) = [] \<and>
   childId (fst (child_mount_effect (Some ''frame-1'') (dispatch fresh_child (JNum 7)))) = Some ''frame-1'' \<and>
   pending_queue (fst (child_mount_effect (Some ''frame-1'') (dispatch fresh_child (JNum 7))))
     = [JNum 7, mounted_message ''frame-1''] \<and>
   fst (run (fst (child_mount_effect (Some ''frame-1'') (dispatch fresh_child (JNum 7)))) [Cycle, Cycle])
     = [PostToParent (encodeMessage (JNum 7) (Some ''frame-1'')), PostToParent (mounted_packet ''frame-1'')] \<and>
   isChild fresh_child \<and>
   fst (run (fst (child_mount_effect (Some ''frame-1'') fresh_child)) [Cycle])
     = [PostToParent (mounted_packet ''frame-1'')]"
proof -
  have c: "isChild (dispatch fresh_child (JNum 7))" "isChild fresh_child" by code_simp+
  have q: "pending_queue (dispatch fresh_child (JNum 7)) = [JNum 7]" "pending_queue fresh_child = []"
    by code_simp+
  show ?thesis
    using c child_announcement_is_queued [OF c(1), of "''frame-1''"]
      child_announcement_is_queued [OF c(2), of "''frame-1''"]
    by (simp add: q mounted_packet_def)
qed

text \<open>
  C9 as stated fails on the code: the mount effect posts nothing, and a message submitted
  before it ran (by an effect of a component further down, which React runs first) is
  posted before the \<^verbatim>\<open>mounted\<close> packet.
\<close>

theorem child_announcement_counterexample:
  "isChild (dispatch fresh_child (JStr ''hello'')) \<and>
   snd (child_mount_effect (Some ''frame-1'') (dispatch fresh_child (JStr ''hello''))) = [] \<and>
   pending_queue (fst (child_mount_effect (Some ''frame-1'') (dispatch fresh_child (JStr ''hello''))))
     = [JStr ''hello'', mounted_message ''frame-1''] \<and>
   fst (run (fst (child_mount_effect (Some ''frame-1'') (dispatch fresh_child (JStr ''hello'')))) [Cycle])
     = [PostToParent (encodeMessage (JStr ''hello'') (Some ''frame-1''))] \<and>
   fst (run (fst (child_mount_effect (Some ''frame-1'') (dispatch fresh_child (JStr ''hello'')))) [Cycle, Cycle])
     = [PostToParent (encodeMessage (JStr ''hello'') (Some ''frame-1'')),
        PostToParent (mounted_packet ''frame-1'')]"
  by code_simp

text \<open>
  C10. A marker-tagged packet whose inner message is a falsy JSON value (\<^verbatim>\<open>false\<close>, \<^verbatim>\<open>0\<close>,
  the empty string, \<^verbatim>\<open>null\<close>) is decoded by the codec as that value, and the event listener
  of any Link does nothing with it: no handler call, no change of state.
\<close>

theorem falsy_message_never_handled:
  "falsy m \<Longrightarrow>
     decodeMessage (encodeMessage m s) = Some (m, map_option JStr s) \<and>
     (\<forall>raw f. decodeMessage raw = Some (m, f) \<longrightarrow> eventListener st raw = Inr (st, []))"
  by (simp add: eventListener_def truthy_iff_not_falsy decodeMessage_def
      decodeMessage_try_encode falsy_wf)

theorem falsy_message_never_handled_witness:
  "falsy (JNum 0) \<and>
   encodeMessage (JNum 0) (Some ''A'') = ''{\"fromId\":\"A\",\"payload\":\"0\",\"__fromUseIframeHook\":true}'' \<and>
   decodeMessage ''{\"fromId\":\"A\",\"payload\":\"0\",\"__fromUseIframeHook\":true}'' = Some (JNum 0, Some (JStr ''A'')) \<and>
   eventListener parent_A ''{\"fromId\":\"A\",\"payload\":\"0\",\"__fromUseIframeHook\":true}'' = Inr (parent_A, []) \<and>
   eventListener fresh_child ''{\"payload\":\"null\",\"__fromUseIframeHook\":true}'' = Inr (fresh_child, [])"
proof -
  have f: "falsy (JNum 0)" "falsy JNull" by (simp_all add: falsy_def)
  have e: "encodeMessage (JNum 0) (Some ''A'') = ''{\"fromId\":\"A\",\"payload\":\"0\",\"__fromUseIframeHook\":true}''"
    by code_simp
  have n: "decodeMessage ''{\"payload\":\"null\",\"__fromUseIframeHook\":true}'' = Some (JNull, None)"
    by code_simp
  show ?thesis
    using f e n falsy_message_never_handled [OF f(1), of "Some ''A''" parent_A]
      falsy_message_never_handled [OF f(2), of None fresh_child]
    by auto
qed

end
